theory Spec2Isabelle
  imports Main "HOL-Library.Word"
begin

section \<open>The drill package: generic traversal\<close>

subsection \<open>Index normalisation\<close>

text \<open>
  Go's \<^verbatim>\<open>int\<close> is a 64-bit two's-complement integer on the usual platforms. Comparisons
  in the source are signed (\<open>\<le>s\<close>, \<open><s\<close>), and \<^verbatim>\<open>i += len\<close> is the wrapping addition of
  the machine.

  \<^verbatim>\<open>
  func Index(i, len int) int {
      if len <= 0 { return -1 }
      if i < 0 { i += len }
      if i < 0 || i >= len { return -1 }
      return i
  }
  \<close>
\<close>

type_synonym go_int = "64 word"

definition Index :: "go_int \<Rightarrow> go_int \<Rightarrow> go_int" where
  "Index i len =
     (if len \<le>s 0 then - 1
      else let i' = (if i <s 0 then i + len else i)
           in if i' <s 0 \<or> len \<le>s i' then - 1 else i')"

subsection \<open>Nodes and the enumeration of descendants\<close>

text \<open>
  A value of the interface type \<^verbatim>\<open>drill.Node\<close> is \<open>None\<close> (the nil interface) or a
  node. Of the capabilities of a node, the enumeration looks at one only: whether the
  node's dynamic type implements \<^verbatim>\<open>OrderedBranch\<close>, and then what its
  \<^verbatim>\<open>OrderedChildren()\<close> returns (a list whose entries may be nil).
\<close>

datatype drill_node =
    is_PlainNode: PlainNode (Fragment: string)
  | is_OrderedBranch: OrderedBranch (Fragment: string) (OrderedChildren: "drill_node option list")

text \<open>
  \<^verbatim>\<open>
  func descendants(d *[]Node, n OrderedBranch) {
      for _, child := range n.OrderedChildren() {
          if child == nil { continue }
          *d = append(*d, child)
          if o, ok := n.(OrderedBranch); ok {
              descendants(d, o)
          }
      }
  }
  \<close>
  The recursion of the source is unbounded, so the model is a partial function into
  \<open>option\<close>: \<open>None\<close> stands for a call that never returns. \<open>descendants_range d n cs\<close> is
  the \<^verbatim>\<open>for\<close> loop of one call with \<open>cs\<close> the children still to visit; the type
  assertion of the source is made on \<open>n\<close>, and the recursive call is made on \<open>n\<close>.
\<close>

partial_function (option) descendants_range ::
  "drill_node list \<Rightarrow> drill_node \<Rightarrow> drill_node option list \<Rightarrow> drill_node list option" where
  "descendants_range d n cs =
     (case cs of
        [] \<Rightarrow> Some d
      | child # rest \<Rightarrow>
          (case child of
             None \<Rightarrow> descendants_range d n rest
           | Some c \<Rightarrow>
               (if is_OrderedBranch n
                then Option.bind (descendants_range (d @ [c]) n (OrderedChildren n))
                       (\<lambda>d'. descendants_range d' n rest)
                else descendants_range (d @ [c]) n rest)))"

definition descendants :: "drill_node list \<Rightarrow> drill_node \<Rightarrow> drill_node list option" where
  "descendants d n = descendants_range d n (OrderedChildren n)"

text \<open>
  \<^verbatim>\<open>
  func Descendants(n Node) []Node {
      d := []Node{}
      if n == nil { return d }
      if o, ok := n.(OrderedBranch); ok { descendants(&d, o) }
      return d
  }
  \<close>
\<close>

definition Descendants :: "drill_node option \<Rightarrow> drill_node list option" where
  "Descendants n =
     (case n of
        None \<Rightarrow> Some []
      | Some v \<Rightarrow> if is_OrderedBranch v then descendants [] v else Some [])"

section \<open>The filesys package: directories as nodes\<close>

text \<open>
  The package wraps a value of Go's interface \<^verbatim>\<open>fs.FS\<close>. Of such a value the methods
  below observe four things, which the model records as the fields of \<open>fsys\<close>:
  \<^item> \<open>implSubFS\<close>: whether the type assertion \<^verbatim>\<open>f.FS.(fs.SubFS)\<close> succeeds;
  \<^item> \<open>fs_ReadDir\<close>: what \<^verbatim>\<open>fs.ReadDir(fsys, ".")\<close> returns, a list of entries and an error
    (\<open>None\<close> is the nil error);
  \<^item> \<open>Sub\<close>: what the method \<^verbatim>\<open>fsys.Sub(name)\<close> of an \<^verbatim>\<open>fs.SubFS\<close> returns;
  \<^item> \<open>fs_Sub\<close>: what the package function \<^verbatim>\<open>fs.Sub(fsys, name)\<close> returns.
  The file system is a parameter of every statement: nothing is assumed about how the
  four are related.
\<close>

datatype fs_error = PathError string

record DirEntry =
  EntryName :: string
  IsDir :: bool

datatype fsys =
  FSys (implSubFS: bool)
       (fs_ReadDir: "DirEntry list \<times> fs_error option")
       (Sub: "string \<Rightarrow> fs_error + fsys")
       (fs_Sub: "string \<Rightarrow> fs_error + fsys")

text \<open>
  \<^verbatim>\<open>type FS struct { fs.FS; handlers Handlers }\<close>: the embedded interface may be nil, and
  so may the slice of handlers. The handlers are only copied by the methods modelled
  here, so their type is left open.
\<close>

datatype 'h FS = FS (fs: "fsys option") (handlers: "'h list option")

text \<open>
  A run-time panic of Go ends the call; it is the \<open>Inl\<close> of a result. Two kinds occur in
  the code modelled here: an index out of range (with the index and the length), and a
  method called on a nil interface.
\<close>

datatype go_panic = IndexOutOfRange nat nat | NilDereference

text \<open>
  \<^verbatim>\<open>
  func (f *FS) Len() int {
      if f.FS == nil { return 0 }
      sub, _ := fs.ReadDir(f.FS, ".")
      return len(sub)
  }
  \<close>
\<close>

definition FS_Len :: "'h FS \<Rightarrow> go_int" where
  "FS_Len f =
     (case fs f of
        None \<Rightarrow> 0
      | Some fsys \<Rightarrow> of_nat (length (fst (fs_ReadDir fsys))))"

text \<open>
  \<^verbatim>\<open>
  func (f *FS) OrderedChild(i int) drill.Node {
      if f.FS == nil { return nil }
      subs, err := fs.ReadDir(f.FS, ".")
      if err != nil { return nil }
      if i = drill.Index(i, len(subs)); i < 0 { return nil }
      sub, err := fs.Sub(f.FS, subs[i].Name())
      if err != nil { return nil }
      return &FS{FS: sub, handlers: f.handlers}
  }
  \<close>
  The read \<^verbatim>\<open>subs[i]\<close> is checked by Go at run time; the model writes the check out.
\<close>

definition FS_OrderedChild :: "'h FS \<Rightarrow> go_int \<Rightarrow> go_panic + 'h FS option" where
  "FS_OrderedChild f i =
     (case fs f of
        None \<Rightarrow> Inr None
      | Some fsys \<Rightarrow>
          (case fs_ReadDir fsys of
             (subs, Some err) \<Rightarrow> Inr None
           | (subs, None) \<Rightarrow>
               (let i' = Index i (of_nat (length subs)) in
                if i' <s 0 then Inr None
                else if length subs \<le> unat i' then Inl (IndexOutOfRange (unat i') (length subs))
                else (case fs_Sub fsys (EntryName (subs ! unat i')) of
                        Inl err \<Rightarrow> Inr None
                      | Inr sub \<Rightarrow> Inr (Some (FS (Some sub) (handlers f)))))))"

text \<open>
  \<^verbatim>\<open>
  func (f *FS) OrderedChildren() []drill.Node {
      if f.FS == nil { return nil }
      fsys, ok := f.FS.(fs.SubFS)
      if !ok { return nil }
      subs, err := fs.ReadDir(fsys, ".")
      if err != nil { return nil }
      nodes := make([]drill.Node, 0, len(subs))
      for i, entry := range subs {
          if sub, err := fsys.Sub(entry.Name()); err == nil {
              nodes[i] = &FS{FS: sub}
          }
      }
      return nodes
  }
  \<close>
  \<^verbatim>\<open>make([]drill.Node, 0, len(subs))\<close> is a slice of length 0 (its capacity is
  \<^verbatim>\<open>len(subs)\<close>), and the loop never appends to it. The store \<^verbatim>\<open>nodes[i] = ...\<close> is
  checked against the length at run time. \<open>FS_OrderedChildren_loop fsys i subs nodes\<close> is
  the loop from index \<open>i\<close> on, \<open>subs\<close> the entries still to visit. A nil slice is \<open>None\<close>.
\<close>

fun FS_OrderedChildren_loop ::
  "fsys \<Rightarrow> nat \<Rightarrow> DirEntry list \<Rightarrow> 'h FS option list \<Rightarrow> go_panic + 'h FS option list" where
  "FS_OrderedChildren_loop fsys i [] nodes = Inr nodes"
| "FS_OrderedChildren_loop fsys i (entry # subs) nodes =
     (case Sub fsys (EntryName entry) of
        Inr sub \<Rightarrow>
          if i < length nodes
          then FS_OrderedChildren_loop fsys (i + 1) subs (nodes[i := Some (FS (Some sub) None)])
          else Inl (IndexOutOfRange i (length nodes))
      | Inl err \<Rightarrow> FS_OrderedChildren_loop fsys (i + 1) subs nodes)"

definition FS_OrderedChildren :: "'h FS \<Rightarrow> go_panic + 'h FS option list option" where
  "FS_OrderedChildren f =
     (case fs f of
        None \<Rightarrow> Inr None
      | Some fsys \<Rightarrow>
          if \<not> implSubFS fsys then Inr None
          else (case fs_ReadDir fsys of
                  (subs, Some err) \<Rightarrow> Inr None
                | (subs, None) \<Rightarrow>
                    (case FS_OrderedChildren_loop fsys 0 subs [] of
                       Inl p \<Rightarrow> Inl p
                     | Inr nodes \<Rightarrow> Inr (Some nodes))))"

section \<open>The markdown package: sections of a document\<close>

subsection \<open>The block tree\<close>

text \<open>
  The parser's tree is a tree of nodes with ordered children. The segmenter tells three
  kinds of node apart: a heading (with its level, its attributes, and the text that
  \<^verbatim>\<open>heading.Text(source)\<close> returns), a \<^verbatim>\<open>Section\<close>, and any other node, which is a
  \<open>Block\<close> with the name of its kind. The value of an attribute is a byte string,
  or something else (a number, a list of values, ...).

  \<^verbatim>\<open>type Section struct { ast.BaseBlock; Heading *ast.Heading; Name string }\<close>: the field
  \<^verbatim>\<open>Heading\<close> is a reference to a heading node, nil for an orphaned section.
\<close>

datatype attr_value = Bytes string | OtherValue

record heading =
  Level :: int
  Attributes :: "(string \<times> attr_value) list"
  Text :: string

datatype ast =
    Heading heading
  | Block string "ast list"
  | Section (SHeading: "heading option") (Name: string) (Children: "ast list")

text \<open>The chain \<^verbatim>\<open>FirstChild()\<close>, \<^verbatim>\<open>NextSibling()\<close>, ... of a node, as a list.\<close>

fun ChildNodes :: "ast \<Rightarrow> ast list" where
  "ChildNodes (Heading h) = []"
| "ChildNodes (Block kind cs) = cs"
| "ChildNodes (Section h name cs) = cs"

definition AttributeString :: "heading \<Rightarrow> string \<Rightarrow> attr_value option" where
  "AttributeString h name = map_of (Attributes h) name"

subsection \<open>The segmenter\<close>

text \<open>
  \<^verbatim>\<open>
  func compileSection(parent ast.Node, source []byte, level int) {
      var subs []*Section
      section := NewSection()
      for current := parent.FirstChild(); current != nil; {
          next := current.NextSibling()
          if heading, ok := current.(*ast.Heading); ok && heading.Level == level {
              if section.Heading != nil || section.ChildCount() > 0 {
                  parent.InsertBefore(parent, heading, section)
                  subs = append(subs, section)
              }
              // Begin next section.
              section = NewSection()
              section.Heading = heading
              id, _ := heading.AttributeString("section")
              if id, ok := id.([]byte); ok {
                  section.Name = string(id)
              } else {
                  id, _ := heading.AttributeString("id")
                  if id, ok := id.([]byte); ok {
                      section.Name = string(id)
                  } else {
                      section.Name = string(heading.Text(source))
                  }
              }
          } else {
              section.AppendChild(section, current)
          }
          current = next
      }
      if section.Heading != nil || section.ChildCount() > 0 {
          parent.AppendChild(parent, section)
          subs = append(subs, section)
      }
      if level >= 6 { return }
      for _, section := range subs {
          if section.Heading != nil { compileSection(section, source, level+1) }
      }
  }
  \<close>
  The source rebuilds the child list of \<open>parent\<close> in place; the model maps the child
  list before the call to the child list after it. The section under construction is
  the triple of its \<^verbatim>\<open>Heading\<close>, its \<^verbatim>\<open>Name\<close> and its children.
  \<^item> \<open>AppendChild\<close> moves a node into the section: the library detaches the node from
    \<open>parent\<close> first, so the node leaves the parent's list.
  \<^item> \<open>emit\<close> is the guarded insertion of the section into the parent's list (before the
    heading that ends it, or at the end) and into \<^verbatim>\<open>subs\<close>.
  \<^item> \<open>beginSection\<close> is the block under \<^verbatim>\<open>// Begin next section\<close>. The heading itself is
    neither moved nor detached: it stays in the parent's list.
  \<^item> \<open>compileSection_loop level xs prev sec\<close> is the scan: \<open>xs\<close> are the siblings from
    \<^verbatim>\<open>current\<close> on, \<open>prev\<close> is the parent's list to the left of \<^verbatim>\<open>current\<close> as it stands,
    \<open>sec\<close> is \<^verbatim>\<open>section\<close>.
  \<^item> After the scan the \<open>Section\<close> nodes of the parent's list are exactly the members of
    \<^verbatim>\<open>subs\<close>, in order (any \<open>Section\<close> of the input was moved into a new one), so the final
    loop over \<^verbatim>\<open>subs\<close> is a map over the list.
  The level is an \<open>int\<close>: the only arithmetic is \<^verbatim>\<open>level+1\<close> below 6.
\<close>

type_synonym new_section = "heading option \<times> string \<times> ast list"

definition NewSection :: new_section where
  "NewSection = (None, [], [])"

definition AppendChild :: "new_section \<Rightarrow> ast \<Rightarrow> new_section" where
  "AppendChild s v = (case s of (h, name, children) \<Rightarrow> (h, name, children @ [v]))"

definition emit :: "new_section \<Rightarrow> ast list" where
  "emit s =
     (case s of (h, name, children) \<Rightarrow>
        if h \<noteq> None \<or> 0 < length children then [Section h name children] else [])"

definition beginSection :: "heading \<Rightarrow> new_section" where
  "beginSection h =
     (Some h,
      (case AttributeString h ''section'' of
         Some (Bytes ident) \<Rightarrow> ident
       | _ \<Rightarrow>
           (case AttributeString h ''id'' of
              Some (Bytes ident) \<Rightarrow> ident
            | _ \<Rightarrow> Text h)),
      [])"

fun compileSection_loop :: "int \<Rightarrow> ast list \<Rightarrow> ast list \<Rightarrow> new_section \<Rightarrow> ast list" where
  "compileSection_loop level [] prev sec = prev @ emit sec"
| "compileSection_loop level (Heading h # next) prev sec =
     (if Level h = level
      then compileSection_loop level next (prev @ emit sec @ [Heading h]) (beginSection h)
      else compileSection_loop level next prev (AppendChild sec (Heading h)))"
| "compileSection_loop level (current # next) prev sec =
     compileSection_loop level next prev (AppendChild sec current)"

function compileSection :: "ast list \<Rightarrow> int \<Rightarrow> ast list" where
  "compileSection parent level =
     (let children = compileSection_loop level parent [] NewSection in
      if 6 \<le> level then children
      else map (\<lambda>n. case n of
                  Section (Some h) name cs \<Rightarrow>
                    Section (Some h) name (compileSection cs (level + 1))
                | _ \<Rightarrow> n) children)"
  by pat_completeness auto
termination
  by (relation "measure (\<lambda>(parent, level). nat (6 - level))") auto

declare compileSection.simps [simp del]

subsection \<open>Nodes over the sections\<close>

text \<open>
  A renderer is what \<^verbatim>\<open>renderer.Render(w, source, n)\<close> does with it: the chunks it writes
  to \<open>w\<close>, in order, and the error it returns (\<open>None\<close> is nil).

  \<^verbatim>\<open>type Node struct { root *Node; section ast.Node; source []byte; renderer renderer.Renderer }\<close>.
  A derived node shares the source and the renderer of its root, so the reference to the
  root is kept as the root's tree. The field \<^verbatim>\<open>section\<close> is \<open>section_node\<close> here.
\<close>

datatype go_error = ErrNoRenderer | EOF | ErrClosedPipe | RenderError string

type_synonym renderer = "string \<Rightarrow> ast \<Rightarrow> string list \<times> go_error option"

record Node =
  root :: "ast option"
  section_node :: ast
  source :: string
  renderer :: "renderer option"

definition derive :: "Node \<Rightarrow> ast \<Rightarrow> Node" where
  "derive n s = n\<lparr>section_node := s\<rparr>"

text \<open>
  \<^verbatim>\<open>
  func (n *Node) WalkChildSections(walk func(child *Section) bool) {
      ast.Walk(n.section, func(child ast.Node, entering bool) (ast.WalkStatus, error) {
          if !entering { return ast.WalkContinue, nil }
          if child == n.section { return ast.WalkContinue, nil }
          if section, ok := child.(*Section); ok {
              if walk(section) { return ast.WalkStop, nil }
          }
          return ast.WalkSkipChildren, nil
      })
  }
  \<close>
  The walk enters \<^verbatim>\<open>n.section\<close>, visits its children in order without entering them,
  and stops when the callback returns true. The callbacks of the source are closures
  that update variables of their caller; in the model the callback takes the state of
  these variables and returns it with its verdict.
\<close>

fun walk_children :: "(ast \<Rightarrow> 'st \<Rightarrow> bool \<times> 'st) \<Rightarrow> ast list \<Rightarrow> 'st \<Rightarrow> 'st" where
  "walk_children walk [] st = st"
| "walk_children walk (Section h name cs # rest) st =
     (case walk (Section h name cs) st of
        (True, st') \<Rightarrow> st'
      | (False, st') \<Rightarrow> walk_children walk rest st')"
| "walk_children walk (child # rest) st = walk_children walk rest st"

definition WalkChildSections :: "Node \<Rightarrow> (ast \<Rightarrow> 'st \<Rightarrow> bool \<times> 'st) \<Rightarrow> 'st \<Rightarrow> 'st" where
  "WalkChildSections n walk st = walk_children walk (ChildNodes (section_node n)) st"

text \<open>
  \<^verbatim>\<open>
  func (n *Node) UnorderedChild(name string) drill.Node {
      var section ast.Node
      n.WalkChildSections(func(child *Section) bool {
          if child.Name == name { section = child; return true }
          return false
      })
      if section == nil { return nil }
      return n.derive(section)
  }

  func (n *Node) UnorderedChildren() map[string]drill.Node {
      sections := map[string]drill.Node{}
      n.WalkChildSections(func(child *Section) bool {
          sections[child.Name] = n.derive(child)
          return false
      })
      return sections
  }
  \<close>
\<close>

definition Node_UnorderedChild :: "Node \<Rightarrow> string \<Rightarrow> Node option" where
  "Node_UnorderedChild n name =
     (case WalkChildSections n
             (\<lambda>child found. if Name child = name then (True, Some child) else (False, found))
             None of
        None \<Rightarrow> None
      | Some s \<Rightarrow> Some (derive n s))"

definition Node_UnorderedChildren :: "Node \<Rightarrow> (string \<rightharpoonup> Node)" where
  "Node_UnorderedChildren n =
     WalkChildSections n (\<lambda>child sections. (False, sections(Name child \<mapsto> derive n child)))
       Map.empty"

subsection \<open>Streaming a fragment\<close>

text \<open>
  \<^verbatim>\<open>
  func render(n *Node, w *io.PipeWriter) {
      if err := n.renderer.Render(w, n.source, n.section); err != nil {
          w.CloseWithError(err)
      }
      w.Close()
  }

  func (n *Node) FragmentReader() (r io.ReadCloser, err error) {
      if n.renderer == nil { return nil, errors.New("no renderer") }
      r, w := io.Pipe()
      go render(n, w)
      return r, nil
  }
  \<close>
  The pipe of \<^verbatim>\<open>io.Pipe()\<close> is its state: the chunks the writer has handed over, in order,
  and the error the write side was closed with. By the documentation of the library,
  \<^verbatim>\<open>CloseWithError(err)\<close> stores \<^verbatim>\<open>err\<close> (\<^verbatim>\<open>io.EOF\<close> for nil) unless an error is stored
  already, \<^verbatim>\<open>Close()\<close> is \<^verbatim>\<open>CloseWithError(nil)\<close>, a write to a closed pipe hands nothing
  over, and the reads deliver the bytes written and then the stored error. A consumer
  that reads \<open>r\<close> until a read fails is given the same bytes and the same error however
  its reads interleave with the writes of \<^verbatim>\<open>render\<close>, so the reader that
  \<open>FragmentReader\<close> returns is modelled as the pipe after \<^verbatim>\<open>render\<close> has run.
  Calling a method of a nil renderer is a panic of Go.
\<close>

record pipe =
  wrote :: "string list"
  werr :: "go_error option"

definition Pipe :: pipe where
  "Pipe = \<lparr>wrote = [], werr = None\<rparr>"

definition Write :: "pipe \<Rightarrow> string \<Rightarrow> pipe" where
  "Write w b = (if werr w = None then w\<lparr>wrote := wrote w @ [b]\<rparr> else w)"

definition CloseWithError :: "pipe \<Rightarrow> go_error option \<Rightarrow> pipe" where
  "CloseWithError w err =
     (if werr w = None then w\<lparr>werr := Some (case err of None \<Rightarrow> EOF | Some e \<Rightarrow> e)\<rparr> else w)"

definition Close :: "pipe \<Rightarrow> pipe" where
  "Close w = CloseWithError w None"

definition Render :: "renderer \<Rightarrow> pipe \<Rightarrow> string \<Rightarrow> ast \<Rightarrow> pipe \<times> go_error option" where
  "Render r w src n = (case r src n of (chunks, err) \<Rightarrow> (foldl Write w chunks, err))"

definition render :: "Node \<Rightarrow> pipe \<Rightarrow> go_panic + pipe" where
  "render n w =
     (case renderer n of
        None \<Rightarrow> Inl NilDereference
      | Some r \<Rightarrow>
          (case Render r w (source n) (section_node n) of
             (w', Some err) \<Rightarrow> Inr (Close (CloseWithError w' (Some err)))
           | (w', None) \<Rightarrow> Inr (Close w')))"

definition FragmentReader :: "Node \<Rightarrow> go_error + (go_panic + pipe)" where
  "FragmentReader n =
     (if renderer n = None then Inl ErrNoRenderer
      else Inr (render n Pipe))"

text \<open>
  What a consumer is given that reads the pipe until a read fails: the bytes, and the
  error of the failing read (\<open>None\<close>: the pipe is never closed, and the read blocks).
\<close>

definition Read_to_end :: "pipe \<Rightarrow> string \<times> go_error option" where
  "Read_to_end r = (concat (wrote r), werr r)"


section \<open>Vocabulary of the specification\<close>

text \<open>A heading of the level the scan runs at.\<close>

fun is_level_heading :: "int \<Rightarrow> ast \<Rightarrow> bool" where
  "is_level_heading level (Heading h) = (Level h = level)"
| "is_level_heading level _ = False"

text \<open>
  The tree the parser hands to the segmenter holds no \<open>Section\<close>: sections are produced
  by the segmenter only.
\<close>

fun no_sections :: "ast \<Rightarrow> bool" where
  "no_sections (Heading h) = True"
| "no_sections (Block kind cs) = (\<forall>c \<in> set cs. no_sections c)"
| "no_sections (Section h name cs) = False"

text \<open>A property of every node of a tree.\<close>

fun all_nodes :: "(ast \<Rightarrow> bool) \<Rightarrow> ast \<Rightarrow> bool" where
  "all_nodes P (Heading h) = P (Heading h)"
| "all_nodes P (Block kind cs) = (P (Block kind cs) \<and> (\<forall>c \<in> set cs. all_nodes P c))"
| "all_nodes P (Section h name cs) = (P (Section h name cs) \<and> (\<forall>c \<in> set cs. all_nodes P c))"

text \<open>
  A section with no heading; an orphan section is one whose name is empty as well. A
  list of siblings has its orphan first when no sibling after the first is an orphan:
  then there is at most one, and it is the first child.
\<close>

fun headless :: "ast \<Rightarrow> bool" where
  "headless (Section None name cs) = True"
| "headless _ = False"

fun is_orphan :: "ast \<Rightarrow> bool" where
  "is_orphan (Section None name cs) = (name = [])"
| "is_orphan _ = False"

definition orphan_first :: "ast list \<Rightarrow> bool" where
  "orphan_first cs = (\<forall>c \<in> set (tl cs). \<not> is_orphan c)"

fun orphans_ok :: "ast \<Rightarrow> bool" where
  "orphans_ok n = (orphan_first (ChildNodes n) \<and> (headless n \<longrightarrow> is_orphan n))"

text \<open>
  The step the segmenter takes on one node of the list it has built at \<open>level\<close>: a
  section with a heading has its own children segmented at \<open>level + 1\<close>.
\<close>

fun recurse :: "int \<Rightarrow> ast \<Rightarrow> ast" where
  "recurse level (Section (Some h) name cs) =
     Section (Some h) name (compileSection cs (level + 1))"
| "recurse level n = n"

text \<open>
  A list of siblings in which every heading is of the given level and is followed at
  once by the section that carries it.
\<close>

fun paired :: "int \<Rightarrow> ast list \<Rightarrow> bool" where
  "paired level [] = True"
| "paired level (Heading h # Section (Some h') name cs # rest) =
     (Level h = level \<and> h' = h \<and> paired level rest)"
| "paired level _ = False"

text \<open>A tree with its sections taken away: every section is replaced by its content.\<close>

fun unwrap :: "ast \<Rightarrow> ast list" where
  "unwrap (Section h name cs) = concat (map unwrap cs)"
| "unwrap n = [n]"

text \<open>
  The name of a section as the specification words it: of the heading's identifier
  under \<open>section\<close>, its identifier under \<open>id\<close> and its text, the first that is present. An
  identifier is an attribute whose value is a byte string.
\<close>

definition bytes_attr :: "heading \<Rightarrow> string \<Rightarrow> string option" where
  "bytes_attr h key = (case AttributeString h key of Some (Bytes v) \<Rightarrow> Some v | _ \<Rightarrow> None)"

fun first_present :: "string option list \<Rightarrow> string" where
  "first_present [] = []"
| "first_present (Some s # rest) = s"
| "first_present (None # rest) = first_present rest"

definition spec_Name :: "heading \<Rightarrow> string" where
  "spec_Name h = first_present [bytes_attr h ''section'', bytes_attr h ''id'', Some (Text h)]"

fun name_resolved :: "ast \<Rightarrow> bool" where
  "name_resolved (Section (Some h) name cs) = (name = spec_Name h)"
| "name_resolved n = True"

text \<open>
  A section with a heading of a level below 6 holds the segmentation, at the next level,
  of the content it owns; one of level 6 or more holds its content as it was.
\<close>

fun subdivided :: "ast \<Rightarrow> bool" where
  "subdivided (Section (Some h) name cs) =
     (if Level h < 6 then cs = compileSection (concat (map unwrap cs)) (Level h + 1)
      else (\<forall>c \<in> set cs. no_sections c))"
| "subdivided n = True"

text \<open>
  The list the scan at a level leaves, as the specification words it. The content a
  heading of the level owns is the run of items after it, up to the next heading of the
  level. The content before the first heading of the level, if there is any, collapses
  into one orphan section, placed first; every heading of the level stays where it is,
  followed at once by one section that carries it, bears the name resolved from it and
  holds the content it owns.
\<close>

definition owned :: "int \<Rightarrow> ast list \<Rightarrow> ast list" where
  "owned level xs = takeWhile (\<lambda>x. \<not> is_level_heading level x) xs"

fun sections_at :: "int \<Rightarrow> ast list \<Rightarrow> ast list" where
  "sections_at level [] = []"
| "sections_at level (Heading h # xs) =
     (if Level h = level
      then Heading h # Section (Some h) (spec_Name h) (owned level xs) # sections_at level xs
      else sections_at level xs)"
| "sections_at level (x # xs) = sections_at level xs"

definition spec_scan :: "int \<Rightarrow> ast list \<Rightarrow> ast list" where
  "spec_scan level cs =
     (if owned level cs = [] then [] else [Section None [] (owned level cs)]) @
     sections_at level cs"

text \<open>
  A node as the scan of its level built it: a section with the content it owns, the
  sections that deeper levels have put into that content taken away.
\<close>

fun own_content :: "ast \<Rightarrow> ast" where
  "own_content (Section h name cs) = Section h name (concat (map unwrap cs))"
| "own_content n = n"

text \<open>The direct child sections of a node that bear a given name, in document order.\<close>

fun section_named :: "string \<Rightarrow> ast \<Rightarrow> bool" where
  "section_named name (Section h name' cs) = (name' = name)"
| "section_named name n = False"

definition named_sections :: "Node \<Rightarrow> string \<Rightarrow> ast list" where
  "named_sections n name = filter (section_named name) (ChildNodes (section_node n))"


section \<open>Properties\<close>

subsection \<open>Index\<close>

text \<open>
  The only arithmetic of \<open>Index\<close> adds a positive \<open>len\<close> to a negative \<open>i\<close>, which cannot
  leave the 64-bit range, so the machine addition agrees with the addition of integers.
\<close>

lemma sint_add_neg_pos:
  fixes i len :: go_int
  assumes "sint i < 0" "0 < sint len"
  shows "sint (i + len) = sint i + sint len"
  using assms sint_lt [of i] sint_ge [of i] sint_lt [of len] sint_ge [of len]
  by (simp add: signed_take_bit_int_eq_self sint_word_ariths)

lemma Index_sint:
  fixes i len :: go_int
  shows "sint (Index i len) =
     (if sint len \<le> 0 then - 1
      else if 0 \<le> sint i then (if sint i < sint len then sint i else - 1)
      else if 0 \<le> sint i + sint len then sint i + sint len else - 1)"
proof (cases "sint len \<le> 0")
  case True
  then show ?thesis by (simp add: Index_def word_sle_eq)
next
  case pos: False
  show ?thesis
  proof (cases "0 \<le> sint i")
    case True
    with pos show ?thesis
      by (simp add: Index_def word_sle_eq word_sless_alt Let_def)
  next
    case False
    then have "sint (i + len) = sint i + sint len"
      using pos by (simp add: sint_add_neg_pos)
    moreover have "sint i + sint len < sint len" using False by simp
    ultimately show ?thesis using pos False
      by (simp add: Index_def word_sle_eq word_sless_alt Let_def)
  qed
qed

text \<open>
  Claim C4. \<open>Index i len\<close> returns \<open>i\<close> whenever \<open>0 \<le> i < len\<close>; a negative \<open>i\<close> wraps by
  adding \<open>len\<close>, so that \<open>Index (-1) len\<close> is \<open>len - 1\<close> for a positive \<open>len\<close>; and the result
  is negative (invalid) whenever \<open>len \<le> 0\<close>, or \<open>i \<ge> len\<close>, or \<open>i + len < 0\<close>. The integers
  are read as signed 64-bit values, and \<open>i + len\<close> in the last condition is the sum of the
  two integers.
\<close>

theorem Index_spec:
  fixes i len :: go_int
  shows "(0 \<le> sint i \<and> sint i < sint len \<longrightarrow> Index i len = i) \<and>
   (sint i < 0 \<and> 0 < sint len \<and> 0 \<le> sint i + sint len \<longrightarrow>
      sint (Index i len) = sint i + sint len) \<and>
   (0 < sint len \<longrightarrow> Index (- 1) len = len - 1) \<and>
   (sint len \<le> 0 \<or> sint len \<le> sint i \<or> sint i + sint len < 0 \<longrightarrow>
      sint (Index i len) < 0)"
proof (intro conjI impI)
  assume "0 \<le> sint i \<and> sint i < sint len"
  then show "Index i len = i"
    by (simp add: Index_def word_sle_eq word_sless_alt Let_def)
next
  assume "sint i < 0 \<and> 0 < sint len \<and> 0 \<le> sint i + sint len"
  then show "sint (Index i len) = sint i + sint len"
    by (simp add: Index_sint)
next
  assume pos: "0 < sint len"
  then have "sint (- 1 + len) = sint len - 1"
    using sint_add_neg_pos [of "- 1" len] by simp
  with pos have "\<not> sint (- 1 + len) < 0" "\<not> sint len \<le> sint (- 1 + len)"
    by simp_all
  with pos have "Index (- 1) len = - 1 + len"
    by (simp add: Index_def word_sle_eq word_sless_alt Let_def)
  then show "Index (- 1) len = len - 1" by simp
next
  assume "sint len \<le> 0 \<or> sint len \<le> sint i \<or> sint i + sint len < 0"
  then show "sint (Index i len) < 0"
    by (auto simp add: Index_sint)
qed

theorem Index_spec_witness:
  "Index 2 5 = 2 \<and> sint (Index (- 3) 5) = 2 \<and> Index (- 1) 5 = 4 \<and>
   sint (Index 0 0) < 0 \<and> sint (Index 5 5) < 0 \<and> sint (Index (- 6) 5) < 0"
  using Index_spec [of 2 5] Index_spec [of "- 3" 5] Index_spec [of 0 0]
    Index_spec [of 5 5] Index_spec [of "- 6" 5]
  by simp

subsection \<open>Descendants\<close>

text \<open>Where the enumeration returns: no node, a node that is no branch, no child to visit.\<close>

lemma Descendants_nil: "Descendants None = Some []"
  by (simp add: Descendants_def)

lemma Descendants_PlainNode: "Descendants (Some (PlainNode f)) = Some []"
  by (simp add: Descendants_def)

lemma descendants_range_all_nil:
  "\<forall>c \<in> set cs. c = None \<Longrightarrow> descendants_range d n cs = Some d"
  by (induction cs) (simp_all add: descendants_range.simps)

lemma Descendants_all_nil:
  "\<forall>c \<in> set cs. c = None \<Longrightarrow> Descendants (Some (OrderedBranch f cs)) = Some []"
  by (simp add: Descendants_def descendants_def descendants_range_all_nil)

text \<open>
  Where it does not: a call of \<open>descendants\<close> on a branch \<open>n\<close> that meets a child which is
  not nil calls \<open>descendants\<close> on \<open>n\<close> again, and so on without end. By induction over the
  calls, no call that has such a child before it returns a value.
\<close>

lemma descendants_range_returns:
  assumes "descendants_range d n cs = Some r"
  shows "\<not> (is_OrderedBranch n \<and> (\<exists>c. Some c \<in> set (OrderedChildren n)) \<and>
    (\<exists>c. Some c \<in> set cs))"
proof (rule descendants_range.raw_induct [where P = "\<lambda>d n cs r.
    \<not> (is_OrderedBranch n \<and> (\<exists>c. Some c \<in> set (OrderedChildren n)) \<and>
       (\<exists>c. Some c \<in> set cs))", OF _ assms], goal_cases)
  case (1 f d n cs r)
  show ?case
  proof
    assume H: "is_OrderedBranch n \<and> (\<exists>c. Some c \<in> set (OrderedChildren n)) \<and>
      (\<exists>c. Some c \<in> set cs)"
    then obtain child rest where cs: "cs = child # rest" by (cases cs) auto
    show False
    proof (cases child)
      case None
      with 1(2) cs have "f d n rest = Some r" by simp
      moreover from H cs None have "\<exists>c. Some c \<in> set rest" by auto
      ultimately show False using 1(1) H by blast
    next
      case (Some c)
      with 1(2) cs H obtain d' where "f (d @ [c]) n (OrderedChildren n) = Some d'"
        by (auto simp: bind_eq_Some_conv)
      then show False using 1(1) H by blast
    qed
  qed
qed

lemma descendants_range_diverges:
  assumes "is_OrderedBranch n" "Some c \<in> set (OrderedChildren n)" "Some c' \<in> set cs"
  shows "descendants_range d n cs = None"
proof (cases "descendants_range d n cs")
  case None
  then show ?thesis .
next
  case (Some r)
  from descendants_range_returns [OF this] assms show ?thesis by blast
qed

lemma Descendants_diverges:
  assumes "Some c \<in> set cs"
  shows "Descendants (Some (OrderedBranch f cs)) = None"
  using descendants_range_diverges [of "OrderedBranch f cs" c c cs "[]"] assms
  by (simp add: Descendants_def descendants_def)

text \<open>
  Claim C1 says that \<open>Descendants\<close> returns for every node, with a finite list, and in
  particular for a branch with a child that is not nil. The code does not: on a branch
  whose one child is a plain node the call never returns. (The source tests the type of
  \<open>n\<close> where the documentation of \<open>Descendants\<close> speaks of the child.)
\<close>

theorem Descendants_never_returns:
  "Descendants (Some (OrderedBranch ''root'' [Some (PlainNode ''leaf'')])) = None"
  by (rule Descendants_diverges [of "PlainNode ''leaf''"]) simp

subsection \<open>The directory nodes\<close>

text \<open>The length of a Go slice is a non-negative \<^verbatim>\<open>int\<close>: it is below \<open>2 ^ 63\<close>.\<close>

lemma sint_of_nat_len:
  assumes "n < 2 ^ 63"
  shows "sint (of_nat n :: go_int) = int n"
proof -
  have "int n < 2 ^ 63" using assms by (simp add: of_nat_less_numeral_power_cancel_iff)
  then show ?thesis
    by (simp add: signed_of_nat signed_take_bit_int_eq_self)
qed

lemma unat_Index_in_range:
  assumes "length subs < 2 ^ 63" "\<not> Index i (of_nat (length subs)) <s 0"
  shows "unat (Index i (of_nat (length subs))) < length subs"
proof -
  let ?r = "Index i (of_nat (length subs))"
  have len: "sint (of_nat (length subs) :: go_int) = int (length subs)"
    using assms(1) by (rule sint_of_nat_len)
  from assms(2) have nonneg: "0 \<le> sint ?r" by (simp add: word_sless_alt)
  then have "sint ?r < int (length subs)"
    using Index_sint [of i "of_nat (length subs)"] len by (auto split: if_splits)
  moreover have "uint ?r = sint ?r"
    using nonneg sint_lt [of ?r] by (simp add: uint_sint take_bit_int_eq_self)
  ultimately have "uint ?r < int (length subs)" "0 \<le> uint ?r"
    using nonneg by simp_all
  then have "nat (uint ?r) < length subs" by linarith
  then show ?thesis by (simp only: unat_eq_nat_uint)
qed

text \<open>The indexed lookup does not panic: the index it reads at is in range.\<close>

lemma FS_OrderedChild_returns:
  assumes "\<And>fsys. fs f = Some fsys \<Longrightarrow> length (fst (fs_ReadDir fsys)) < 2 ^ 63"
  shows "\<exists>r. FS_OrderedChild f i = Inr r"
proof (cases "fs f")
  case None
  then show ?thesis by (simp add: FS_OrderedChild_def)
next
  case (Some fsys)
  obtain subs err where rd: "fs_ReadDir fsys = (subs, err)" by (cases "fs_ReadDir fsys")
  with assms [OF Some] have len: "length subs < 2 ^ 63" by simp
  show ?thesis
  proof (cases err)
    case (Some e)
    with \<open>fs f = Some fsys\<close> rd show ?thesis by (simp add: FS_OrderedChild_def)
  next
    case None
    show ?thesis
    proof (cases "Index i (of_nat (length subs)) <s 0")
      case True
      with \<open>fs f = Some fsys\<close> rd None show ?thesis by (simp add: FS_OrderedChild_def)
    next
      case False
      from unat_Index_in_range [OF len False]
      have "\<not> length subs \<le> unat (Index i (of_nat (length subs)))" by simp
      with \<open>fs f = Some fsys\<close> rd None False show ?thesis
        by (simp add: FS_OrderedChild_def Let_def split: sum.splits)
    qed
  qed
qed

text \<open>
  The enumeration stores into a slice of length 0: it returns the empty slice when
  \<open>Sub\<close> fails for every entry, and panics at the first entry for which \<open>Sub\<close> succeeds.
\<close>

lemma FS_OrderedChildren_loop_empty:
  "FS_OrderedChildren_loop fsys i subs [] = Inr nodes \<Longrightarrow>
     nodes = [] \<and> (\<forall>entry \<in> set subs. \<forall>sub. Sub fsys (EntryName entry) \<noteq> Inr sub)"
  by (induction subs arbitrary: i) (auto split: sum.splits)

lemma FS_OrderedChildren_loop_panics:
  assumes "entry \<in> set subs" "Sub fsys (EntryName entry) = Inr sub"
  shows "\<exists>j. FS_OrderedChildren_loop fsys i subs [] = Inl (IndexOutOfRange j 0)"
proof (cases "FS_OrderedChildren_loop fsys i subs ([] :: 'a FS option list)")
  case (Inl p)
  then show ?thesis
    by (induction subs arbitrary: i) (auto split: sum.splits)
next
  case (Inr nodes)
  from FS_OrderedChildren_loop_empty [OF this] assms show ?thesis by blast
qed

lemma FS_OrderedChildren_panics_on_SubFS:
  assumes "implSubFS fsys" "fs_ReadDir fsys = (subs, None)"
    and "entry \<in> set subs" "Sub fsys (EntryName entry) = Inr sub"
  shows "\<exists>j. FS_OrderedChildren (FS (Some fsys) hs) = Inl (IndexOutOfRange j 0)"
proof -
  from FS_OrderedChildren_loop_panics [OF assms(3,4)]
  obtain j where "FS_OrderedChildren_loop fsys 0 subs ([] :: 'a FS option list) =
      Inl (IndexOutOfRange j 0)" by blast
  with assms(1,2) show ?thesis by (simp add: FS_OrderedChildren_def)
qed

text \<open>
  Claim C2 says that no child-returning operation of a directory node panics, and that
  \<open>OrderedChildren\<close> returns on every readable directory that is not empty. The code does
  not: on a file system with the \<^verbatim>\<open>Sub\<close> method whose directory holds one entry ``a'',
  and whose \<^verbatim>\<open>Sub("a")\<close> succeeds, the store \<^verbatim>\<open>nodes[0] = ...\<close> is out of range, the slice
  being of length 0.
\<close>

theorem FS_OrderedChildren_panics:
  "FS_OrderedChildren
     (FS (Some (FSys True ([\<lparr>EntryName = ''a'', IsDir = True\<rparr>], None)
                  (\<lambda>name. Inr (FSys True ([], None)
                     (\<lambda>name. Inl (PathError name)) (\<lambda>name. Inl (PathError name))))
                  (\<lambda>name. Inr (FSys True ([], None)
                     (\<lambda>name. Inl (PathError name)) (\<lambda>name. Inl (PathError name))))))
         (None :: string list option)) =
   Inl (IndexOutOfRange 0 0)"
  by (simp add: FS_OrderedChildren_def)

text \<open>
  Claim C9, as amended. For a directory node whose file system does not implement
  \<^verbatim>\<open>fs.SubFS\<close>, \<open>OrderedChildren\<close> returns nil, whatever the directory holds. When the
  directory is readable and not empty, \<open>Len\<close> is positive all the same, and
  \<open>OrderedChild 0\<close> is the node of the first entry whenever \<^verbatim>\<open>fs.Sub\<close> opens that entry,
  and nil when \<^verbatim>\<open>fs.Sub\<close> fails on its name: the indexed lookup does not ask for the
  capability that the enumeration requires.
\<close>

theorem FS_OrderedChildren_requires_SubFS:
  assumes "\<not> implSubFS fsys"
  shows "FS_OrderedChildren (FS (Some fsys) hs) = Inr None \<and>
    (fs_ReadDir fsys = (subs, None) \<and> subs \<noteq> [] \<and> length subs < 2 ^ 63 \<longrightarrow>
       0 <s FS_Len (FS (Some fsys) hs) \<and>
       FS_OrderedChild (FS (Some fsys) hs) 0 =
         Inr (case fs_Sub fsys (EntryName (subs ! 0)) of
                Inl err \<Rightarrow> None
              | Inr sub \<Rightarrow> Some (FS (Some sub) hs)))"
proof (intro conjI impI)
  show "FS_OrderedChildren (FS (Some fsys) hs) = Inr None"
    using assms by (simp add: FS_OrderedChildren_def)
next
  assume H: "fs_ReadDir fsys = (subs, None) \<and> subs \<noteq> [] \<and> length subs < 2 ^ 63"
  then have len: "sint (of_nat (length subs) :: go_int) = int (length subs)"
    by (simp add: sint_of_nat_len)
  with H have pos: "0 < sint (of_nat (length subs) :: go_int)" by simp
  from pos H show "0 <s FS_Len (FS (Some fsys) hs)"
    by (simp add: FS_Len_def word_sless_alt)
  from pos have "Index 0 (of_nat (length subs)) = 0"
    by (simp add: Index_def word_sle_eq word_sless_alt Let_def)
  with H show "FS_OrderedChild (FS (Some fsys) hs) 0 =
      Inr (case fs_Sub fsys (EntryName (subs ! 0)) of
             Inl err \<Rightarrow> None
           | Inr sub \<Rightarrow> Some (FS (Some sub) hs))"
    by (simp add: FS_OrderedChild_def split: sum.splits)
qed

text \<open>
  Claim C9 as it is worded fails: it has \<open>OrderedChild 0\<close> not nil for every readable
  directory that is not empty. Where \<^verbatim>\<open>fs.Sub\<close> fails on the name of the first entry,
  as the library does for a name that is no valid path (here a name that is not UTF-8),
  the method returns nil, by its test of the error.
\<close>

theorem FS_OrderedChild_nil_counterexample:
  "\<not> implSubFS (FSys False ([\<lparr>EntryName = [CHR 0xFF], IsDir = False\<rparr>], None)
       (\<lambda>name. Inl (PathError name)) (\<lambda>name. Inl (PathError name))) \<and>
   fs_ReadDir (FSys False ([\<lparr>EntryName = [CHR 0xFF], IsDir = False\<rparr>], None)
       (\<lambda>name. Inl (PathError name)) (\<lambda>name. Inl (PathError name))) =
     ([\<lparr>EntryName = [CHR 0xFF], IsDir = False\<rparr>], None) \<and>
   0 <s FS_Len
     (FS (Some (FSys False ([\<lparr>EntryName = [CHR 0xFF], IsDir = False\<rparr>], None)
        (\<lambda>name. Inl (PathError name)) (\<lambda>name. Inl (PathError name))))
      (None :: string list option)) \<and>
   FS_OrderedChild
     (FS (Some (FSys False ([\<lparr>EntryName = [CHR 0xFF], IsDir = False\<rparr>], None)
        (\<lambda>name. Inl (PathError name)) (\<lambda>name. Inl (PathError name))))
      (None :: string list option)) 0 = Inr None"
  by (simp add: FS_Len_def FS_OrderedChild_def Index_def word_sle_eq word_sless_alt)

theorem FS_OrderedChildren_requires_SubFS_witness:
  "\<not> implSubFS (FSys False ([\<lparr>EntryName = ''a'', IsDir = True\<rparr>], None)
        (\<lambda>name. Inl (PathError name))
        (\<lambda>name. Inr (FSys True ([], None)
           (\<lambda>name. Inl (PathError name)) (\<lambda>name. Inl (PathError name))))) \<and>
   FS_OrderedChildren
     (FS (Some (FSys False ([\<lparr>EntryName = ''a'', IsDir = True\<rparr>], None)
        (\<lambda>name. Inl (PathError name))
        (\<lambda>name. Inr (FSys True ([], None)
           (\<lambda>name. Inl (PathError name)) (\<lambda>name. Inl (PathError name))))))
      (Some [''*.md''])) = Inr None \<and>
   0 <s FS_Len
     (FS (Some (FSys False ([\<lparr>EntryName = ''a'', IsDir = True\<rparr>], None)
        (\<lambda>name. Inl (PathError name))
        (\<lambda>name. Inr (FSys True ([], None)
           (\<lambda>name. Inl (PathError name)) (\<lambda>name. Inl (PathError name))))))
      (Some [''*.md''])) \<and>
   FS_OrderedChild
     (FS (Some (FSys False ([\<lparr>EntryName = ''a'', IsDir = True\<rparr>], None)
        (\<lambda>name. Inl (PathError name))
        (\<lambda>name. Inr (FSys True ([], None)
           (\<lambda>name. Inl (PathError name)) (\<lambda>name. Inl (PathError name))))))
      (Some [''*.md''])) 0 =
   Inr (Some (FS (Some (FSys True ([], None)
           (\<lambda>name. Inl (PathError name)) (\<lambda>name. Inl (PathError name))))
         (Some [''*.md''])))"
  using FS_OrderedChildren_requires_SubFS [where fsys =
     "FSys False ([\<lparr>EntryName = ''a'', IsDir = True\<rparr>], None)
        (\<lambda>name. Inl (PathError name))
        (\<lambda>name. Inr (FSys True ([], None)
           (\<lambda>name. Inl (PathError name)) (\<lambda>name. Inl (PathError name))))"
     and hs = "Some [''*.md'']" and subs = "[\<lparr>EntryName = ''a'', IsDir = True\<rparr>]"]
  by simp

subsection \<open>The segmenter: the scan\<close>

text \<open>
  The list to the left of the cursor is only ever extended, so the scan from an
  arbitrary list is that list followed by the scan from the empty one.
\<close>

lemma loop_prev:
  "compileSection_loop level xs prev sec = prev @ compileSection_loop level xs [] sec"
proof (induction xs arbitrary: prev sec)
  case Nil
  show ?case by simp
next
  case (Cons x xs)
  show ?case
  proof (cases x)
    case (Heading h)
    show ?thesis
    proof (cases "Level h = level")
      case True
      have "compileSection_loop level (Heading h # xs) prev sec =
          compileSection_loop level xs (prev @ emit sec @ [Heading h]) (beginSection h)"
        using True by simp
      also have "\<dots> = (prev @ emit sec @ [Heading h]) @
          compileSection_loop level xs [] (beginSection h)"
        by (rule Cons.IH)
      finally have a: "compileSection_loop level (Heading h # xs) prev sec =
          (prev @ emit sec @ [Heading h]) @ compileSection_loop level xs [] (beginSection h)" .
      have "compileSection_loop level (Heading h # xs) [] sec =
          compileSection_loop level xs (emit sec @ [Heading h]) (beginSection h)"
        using True by simp
      also have "\<dots> = (emit sec @ [Heading h]) @
          compileSection_loop level xs [] (beginSection h)"
        by (rule Cons.IH)
      finally have b: "compileSection_loop level (Heading h # xs) [] sec =
          (emit sec @ [Heading h]) @ compileSection_loop level xs [] (beginSection h)" .
      show ?thesis unfolding Heading a b by simp
    next
      case False
      then show ?thesis unfolding Heading by simp (rule Cons.IH)
    qed
  next
    case (Block kind cs)
    show ?thesis unfolding Block by simp (rule Cons.IH)
  next
    case (Section h name cs)
    show ?thesis unfolding Section by simp (rule Cons.IH)
  qed
qed

text \<open>The scan from the empty list, one sibling at a time.\<close>

lemma loop_Nil: "compileSection_loop level [] [] sec = emit sec"
  by simp

lemma loop_Cons:
  "compileSection_loop level (x # xs) [] sec =
     (if is_level_heading level x
      then emit sec @ x # compileSection_loop level xs [] (beginSection (un_Heading x))
      else compileSection_loop level xs [] (AppendChild sec x))"
proof (cases x)
  case (Heading h)
  then show ?thesis
    using loop_prev [of level xs "emit sec @ [Heading h]" "beginSection h"] by simp
qed simp_all

lemma emit_cases: "emit (h, name, cs) = [] \<or> emit (h, name, cs) = [Section h name cs]"
  by (simp add: emit_def)

text \<open>
  What the scan leaves in the parent's list: headings of the level, which were in the
  list before, and sections.
\<close>

lemma loop_elems:
  "n \<in> set (compileSection_loop level xs [] sec) \<Longrightarrow>
     (is_level_heading level n \<and> n \<in> set xs) \<or> is_Section n"
proof (induction xs arbitrary: sec)
  case Nil
  then show ?case by (cases sec) (auto simp: emit_def split: if_splits)
next
  case (Cons x xs)
  show ?case
  proof (cases "is_level_heading level x")
    case True
    with Cons.prems have "n \<in> set (emit sec) \<or> n = x \<or>
        n \<in> set (compileSection_loop level xs [] (beginSection (un_Heading x)))"
      by (auto simp: loop_Cons)
    then show ?thesis
    proof (elim disjE)
      assume "n \<in> set (emit sec)"
      then show ?thesis by (cases sec) (auto simp: emit_def split: if_splits)
    next
      assume "n = x"
      with True show ?thesis by simp
    next
      assume "n \<in> set (compileSection_loop level xs [] (beginSection (un_Heading x)))"
      from Cons.IH [OF this] show ?thesis by auto
    qed
  next
    case False
    with Cons.prems have "n \<in> set (compileSection_loop level xs [] (AppendChild sec x))"
      by (simp add: loop_Cons)
    from Cons.IH [OF this] show ?thesis by auto
  qed
qed

text \<open>
  A section of the scan's list holds nodes of the input (and what the section under
  construction held at the start); it is that section, or it was begun at a heading of
  the level and bears the name computed there.
\<close>

lemma loop_sections:
  assumes "Section h name ks \<in> set (compileSection_loop level xs [] (h0, name0, ks0))"
  shows "set ks \<subseteq> set ks0 \<union> set xs \<and>
     ((h = h0 \<and> name = name0) \<or>
      (\<exists>g. h = Some g \<and> Level g = level \<and> Heading g \<in> set xs \<and>
         name = fst (snd (beginSection g))))"
  using assms
proof (induction xs arbitrary: h0 name0 ks0)
  case Nil
  then show ?case by (auto simp: emit_def split: if_splits)
next
  case (Cons x xs)
  show ?case
  proof (cases "is_level_heading level x")
    case True
    then obtain g where x: "x = Heading g" and lv: "Level g = level"
      by (cases x) auto
    obtain nm where bs: "beginSection g = (Some g, nm, [])"
      by (simp add: beginSection_def)
    from Cons.prems True x have "Section h name ks \<in> set (emit (h0, name0, ks0)) \<or>
        Section h name ks \<in> set (compileSection_loop level xs [] (beginSection g))"
      by (simp add: loop_Cons)
    then show ?thesis
    proof
      assume "Section h name ks \<in> set (emit (h0, name0, ks0))"
      then show ?thesis by (auto simp: emit_def split: if_splits)
    next
      assume "Section h name ks \<in> set (compileSection_loop level xs [] (beginSection g))"
      then have "Section h name ks \<in> set (compileSection_loop level xs [] (Some g, nm, []))"
        by (simp add: bs)
      from Cons.IH [OF this] show ?thesis
        using x lv bs by auto
    qed
  next
    case False
    with Cons.prems have "Section h name ks \<in>
        set (compileSection_loop level xs [] (h0, name0, ks0 @ [x]))"
      by (simp add: loop_Cons AppendChild_def)
    from Cons.IH [OF this] show ?thesis by auto
  qed
qed


text \<open>The equation of \<open>compileSection\<close>, with the step on one node named.\<close>

lemma compileSection_unfold:
  "compileSection parent level =
     (if 6 \<le> level then compileSection_loop level parent [] NewSection
      else map (recurse level) (compileSection_loop level parent [] NewSection))"
proof -
  have "(\<lambda>n. case n of
            Section (Some h) name cs \<Rightarrow> Section (Some h) name (compileSection cs (level + 1))
          | _ \<Rightarrow> n) = recurse level"
  proof
    fix n show "(case n of
            Section (Some h) name cs \<Rightarrow> Section (Some h) name (compileSection cs (level + 1))
          | _ \<Rightarrow> n) = recurse level n"
      by (cases "(level, n)" rule: recurse.cases) simp_all
  qed
  then show ?thesis
    by (subst compileSection.simps) (simp add: Let_def)
qed

text \<open>
  Only the section the scan starts with can be without a heading, and it is emitted
  first if at all: no node after the first is a section without a heading.
\<close>

lemma loop_no_headless:
  assumes "h0 \<noteq> None" "n \<in> set (compileSection_loop level xs [] (h0, name0, ks0))"
  shows "\<not> headless n"
proof
  assume "headless n"
  then obtain name ks where n: "n = Section None name ks"
    by (cases n rule: headless.cases) auto
  from loop_sections [OF assms(2) [unfolded n]] assms(1) show False by auto
qed

lemma loop_tl_no_headless:
  "n \<in> set (tl (compileSection_loop level xs [] (h0, name0, ks0))) \<Longrightarrow> \<not> headless n"
proof (induction xs arbitrary: h0 name0 ks0)
  case Nil
  then show ?case by (auto simp: emit_def split: if_splits)
next
  case (Cons x xs)
  show ?case
  proof (cases "is_level_heading level x")
    case True
    then obtain g where x: "x = Heading g" by (cases x) auto
    obtain nm where bs: "beginSection g = (Some g, nm, [])"
      by (simp add: beginSection_def)
    let ?rest = "compileSection_loop level xs [] (Some g, nm, [])"
    have out: "compileSection_loop level (x # xs) [] (h0, name0, ks0) =
        emit (h0, name0, ks0) @ x # ?rest"
      using True x bs by (simp add: loop_Cons)
    from emit_cases [of h0 name0 ks0] Cons.prems
    have "n = x \<or> n \<in> set ?rest"
      unfolding out by auto
    then show ?thesis
    proof
      assume "n = x" then show ?thesis using x by simp
    next
      assume "n \<in> set ?rest"
      then show ?thesis using loop_no_headless [of "Some g" n level xs nm "[]"] by simp
    qed
  next
    case False
    with Cons.prems have "n \<in> set (tl (compileSection_loop level xs [] (h0, name0, ks0 @ [x])))"
      by (simp add: loop_Cons AppendChild_def)
    from Cons.IH [OF this] show ?thesis .
  qed
qed

lemma headless_recurse: "headless (recurse level n) = headless n"
  by (cases "(level, n)" rule: recurse.cases) simp_all

lemma compileSection_tl_no_headless:
  assumes "n \<in> set (tl (compileSection cs level))"
  shows "\<not> headless n"
proof (cases "6 \<le> level")
  case True
  with assms show ?thesis
    using loop_tl_no_headless [of n level cs None "[]" "[]"]
    by (simp add: compileSection_unfold NewSection_def)
next
  case False
  with assms obtain m where "m \<in> set (tl (compileSection_loop level cs [] NewSection))"
      and "n = recurse level m"
    by (auto simp: compileSection_unfold map_tl [symmetric])
  then show ?thesis
    using loop_tl_no_headless [of m level cs None "[]" "[]"]
    by (simp add: NewSection_def headless_recurse)
qed

lemma is_orphan_headless: "is_orphan n \<Longrightarrow> headless n"
  by (cases n rule: is_orphan.cases) simp_all

lemma compileSection_orphan_first: "orphan_first (compileSection cs level)"
  unfolding orphan_first_def
proof
  fix c assume "c \<in> set (tl (compileSection cs level))"
  from compileSection_tl_no_headless [OF this] show "\<not> is_orphan c"
    using is_orphan_headless by blast
qed

text \<open>Read by index: an orphan among the siblings is at index 0.\<close>

lemma orphan_first_index:
  "orphan_first cs \<longleftrightarrow> (\<forall>i < length cs. is_orphan (cs ! i) \<longrightarrow> i = 0)"
proof (cases cs)
  case Nil
  then show ?thesis by (simp add: orphan_first_def)
next
  case (Cons c rest)
  have "(\<forall>x \<in> set rest. \<not> is_orphan x) \<longleftrightarrow>
      (\<forall>i < Suc (length rest). is_orphan ((c # rest) ! i) \<longrightarrow> i = 0)"
  proof
    assume a: "\<forall>x \<in> set rest. \<not> is_orphan x"
    show "\<forall>i < Suc (length rest). is_orphan ((c # rest) ! i) \<longrightarrow> i = 0"
    proof (intro allI impI)
      fix i assume "i < Suc (length rest)" "is_orphan ((c # rest) ! i)"
      with a show "i = 0" by (cases i) auto
    qed
  next
    assume b: "\<forall>i < Suc (length rest). is_orphan ((c # rest) ! i) \<longrightarrow> i = 0"
    show "\<forall>x \<in> set rest. \<not> is_orphan x"
    proof
      fix x assume "x \<in> set rest"
      then obtain j where "j < length rest" "rest ! j = x" by (auto simp: in_set_conv_nth)
      with b [rule_format, of "Suc j"] show "\<not> is_orphan x" by auto
    qed
  qed
  with Cons show ?thesis by (simp add: orphan_first_def)
qed

text \<open>
  A property of every node of the segmenter's tree, from its instances: for the nodes
  of the input, for an orphan section, for a section the recursion leaves flat, and for
  a section whose children it has segmented.
\<close>

lemma all_nodes_no_sections:
  assumes "\<And>m. no_sections m \<Longrightarrow> P m"
  shows "no_sections n \<Longrightarrow> all_nodes P n"
proof (induction n)
  case (Heading h)
  then show ?case using assms [of "Heading h"] by simp
next
  case (Block kind cs)
  then show ?case using assms [of "Block kind cs"] by auto
next
  case (Section h name cs)
  then show ?case by simp
qed

lemma compileSection_all_nodes:
  assumes base: "\<And>m. no_sections m \<Longrightarrow> P m"
    and orphan: "\<And>ks. \<forall>k \<in> set ks. no_sections k \<Longrightarrow> P (Section None [] ks)"
    and flat: "\<And>h ks. \<forall>k \<in> set ks. no_sections k \<Longrightarrow> 6 \<le> Level h \<Longrightarrow>
      P (Section (Some h) (fst (snd (beginSection h))) ks)"
    and nested: "\<And>h ks. \<forall>k \<in> set ks. no_sections k \<Longrightarrow> Level h < 6 \<Longrightarrow>
      P (Section (Some h) (fst (snd (beginSection h))) (compileSection ks (Level h + 1)))"
  shows "\<forall>k \<in> set cs. no_sections k \<Longrightarrow> n \<in> set (compileSection cs level) \<Longrightarrow> all_nodes P n"
proof (induction cs level arbitrary: n rule: compileSection.induct)
  case (1 parent level)
  let ?out = "compileSection_loop level parent [] NewSection"
  have flat_node: "all_nodes P m" if m: "m \<in> set ?out" and nr: "6 \<le> level \<or> \<not> is_Section m \<or> SHeading m = None" for m
  proof (cases m)
    case (Heading h)
    then show ?thesis using base [of m] by simp
  next
    case (Block kind cs)
    with loop_elems [OF m] show ?thesis by simp
  next
    case (Section h name ks)
    from loop_sections [OF m [unfolded Section NewSection_def]]
    have ks: "set ks \<subseteq> set parent"
      and hn: "(h = None \<and> name = []) \<or> (\<exists>g. h = Some g \<and> Level g = level \<and>
         name = fst (snd (beginSection g)))"
      by auto
    from ks "1.prems"(1) have nk: "\<forall>k \<in> set ks. no_sections k" by auto
    then have kids: "\<forall>k \<in> set ks. all_nodes P k"
      using all_nodes_no_sections [of P] base by blast
    from hn have "P (Section h name ks)"
    proof
      assume "h = None \<and> name = []"
      then show ?thesis using orphan [OF nk] by simp
    next
      assume "\<exists>g. h = Some g \<and> Level g = level \<and> name = fst (snd (beginSection g))"
      then obtain g where g: "h = Some g" "Level g = level" "name = fst (snd (beginSection g))"
        by blast
      with nr Section have "6 \<le> Level g" by simp
      from flat [OF nk this] g show ?thesis by simp
    qed
    with kids Section show ?thesis by simp
  qed
  show ?case
  proof (cases "6 \<le> level")
    case True
    with "1.prems"(2) have "n \<in> set ?out" by (simp add: compileSection_unfold)
    then show ?thesis using flat_node True by blast
  next
    case False
    with "1.prems"(2) obtain m where m: "m \<in> set ?out" and n: "n = recurse level m"
      by (auto simp: compileSection_unfold)
    show ?thesis
    proof (cases "is_Section m \<and> SHeading m \<noteq> None")
      case False
      then have "recurse level m = m"
        by (cases "(level, m)" rule: recurse.cases) simp_all
      with flat_node [OF m] False n show ?thesis by auto
    next
      case True
      then obtain g name ks where sec: "m = Section (Some g) name ks"
        by (cases m) auto
      from loop_sections [OF m [unfolded sec NewSection_def]]
      have ks: "set ks \<subseteq> set parent" and lv: "Level g = level"
        and nm: "name = fst (snd (beginSection g))"
        by auto
      from ks "1.prems"(1) have nk: "\<forall>k \<in> set ks. no_sections k" by auto
      have kids: "\<forall>k \<in> set (compileSection ks (level + 1)). all_nodes P k"
        using "1.IH" [OF refl \<open>\<not> 6 \<le> level\<close> m sec refl nk] by blast
      have "P (Section (Some g) name (compileSection ks (level + 1)))"
        using nested [OF nk, of g] lv nm \<open>\<not> 6 \<le> level\<close> by simp
      with kids show ?thesis by (simp add: n sec)
    qed
  qed
qed


text \<open>The shape of the list: every heading is followed at once by its section.\<close>

lemma loop_headed_shape:
  "\<exists>ks' rest. compileSection_loop level xs [] (Some g, name, ks) =
      Section (Some g) name ks' # rest \<and> paired level rest"
proof (induction xs arbitrary: g name ks)
  case Nil
  show ?case by (simp add: emit_def)
next
  case (Cons x xs)
  show ?case
  proof (cases "is_level_heading level x")
    case True
    then obtain h where x: "x = Heading h" and lv: "Level h = level" by (cases x) auto
    obtain nm where bs: "beginSection h = (Some h, nm, [])"
      by (simp add: beginSection_def)
    from Cons.IH [of h nm "[]"] obtain ks' rest where
      "compileSection_loop level xs [] (Some h, nm, []) = Section (Some h) nm ks' # rest"
      "paired level rest" by blast
    then show ?thesis using True x lv bs by (simp add: loop_Cons emit_def)
  next
    case False
    then show ?thesis using Cons.IH [of g name "ks @ [x]"]
      by (simp add: loop_Cons AppendChild_def)
  qed
qed

lemma loop_shape:
  "paired level (compileSection_loop level xs [] (None, [], ks)) \<or>
   (\<exists>ks' rest. compileSection_loop level xs [] (None, [], ks) = Section None [] ks' # rest \<and>
      paired level rest)"
proof (induction xs arbitrary: ks)
  case Nil
  show ?case by (simp add: emit_def)
next
  case (Cons x xs)
  show ?case
  proof (cases "is_level_heading level x")
    case True
    then obtain h where x: "x = Heading h" and lv: "Level h = level" by (cases x) auto
    obtain nm where bs: "beginSection h = (Some h, nm, [])"
      by (simp add: beginSection_def)
    from loop_headed_shape [of level xs h nm "[]"] obtain ks' rest where
      "compileSection_loop level xs [] (Some h, nm, []) = Section (Some h) nm ks' # rest"
      "paired level rest" by blast
    then show ?thesis using True x lv bs by (simp add: loop_Cons emit_def)
  next
    case False
    then show ?thesis using Cons.IH [of "ks @ [x]"]
      by (simp add: loop_Cons AppendChild_def)
  qed
qed

lemma paired_recurse: "paired level xs \<Longrightarrow> paired level (map (recurse l) xs)"
  by (induction level xs rule: paired.induct) simp_all

lemma compileSection_shape:
  "paired level (compileSection cs level) \<or>
   (\<exists>ks rest. compileSection cs level = Section None [] ks # rest \<and> paired level rest)"
proof (cases "6 \<le> level")
  case True
  then show ?thesis using loop_shape [of level cs "[]"]
    by (simp add: compileSection_unfold NewSection_def)
next
  case False
  from loop_shape [of level cs "[]"] show ?thesis
  proof
    assume "paired level (compileSection_loop level cs [] (None, [], []))"
    then show ?thesis using False
      by (simp add: compileSection_unfold NewSection_def paired_recurse)
  next
    assume "\<exists>ks' rest. compileSection_loop level cs [] (None, [], []) = Section None [] ks' # rest \<and>
      paired level rest"
    then show ?thesis using False
      by (auto simp add: compileSection_unfold NewSection_def paired_recurse)
  qed
qed

text \<open>Taking the sections away gives the input back.\<close>

lemma unwrap_no_sections: "no_sections n \<Longrightarrow> unwrap n = [n]"
  by (cases n) simp_all

lemma unwrap_all_no_sections: "\<forall>k \<in> set ks. no_sections k \<Longrightarrow> concat (map unwrap ks) = ks"
  by (induction ks) (simp_all add: unwrap_no_sections)

lemma loop_unwrap:
  assumes "\<forall>k \<in> set ks0. no_sections k" "\<forall>k \<in> set xs. no_sections k"
  shows "concat (map unwrap (compileSection_loop level xs [] (h0, name0, ks0))) = ks0 @ xs"
  using assms
proof (induction xs arbitrary: h0 name0 ks0)
  case Nil
  then show ?case by (simp add: emit_def unwrap_all_no_sections)
next
  case (Cons x xs)
  show ?case
  proof (cases "is_level_heading level x")
    case True
    then obtain h where x: "x = Heading h" by (cases x) auto
    obtain nm where bs: "beginSection h = (Some h, nm, [])"
      by (simp add: beginSection_def)
    have "concat (map unwrap (compileSection_loop level xs [] (Some h, nm, []))) = [] @ xs"
      using Cons.prems by (intro Cons.IH) simp_all
    moreover have "concat (map unwrap (emit (h0, name0, ks0))) = ks0"
      using Cons.prems(1) by (simp add: emit_def unwrap_all_no_sections)
    ultimately show ?thesis using True x bs by (simp add: loop_Cons)
  next
    case False
    have "concat (map unwrap (compileSection_loop level xs [] (h0, name0, ks0 @ [x]))) =
        (ks0 @ [x]) @ xs"
      using Cons.prems by (intro Cons.IH) simp_all
    then show ?thesis using False by (simp add: loop_Cons AppendChild_def)
  qed
qed

lemma compileSection_unwrap:
  "\<forall>k \<in> set cs. no_sections k \<Longrightarrow> concat (map unwrap (compileSection cs level)) = cs"
proof (induction cs level rule: compileSection.induct)
  case (1 parent level)
  let ?out = "compileSection_loop level parent [] NewSection"
  have out: "concat (map unwrap ?out) = parent"
    using loop_unwrap [of "[]" parent level None "[]"] "1.prems" by (simp add: NewSection_def)
  show ?case
  proof (cases "6 \<le> level")
    case True
    then show ?thesis using out by (simp add: compileSection_unfold)
  next
    case False
    have "unwrap (recurse level m) = unwrap m" if m: "m \<in> set ?out" for m
    proof (cases "is_Section m \<and> SHeading m \<noteq> None")
      case False
      then have "recurse level m = m"
        by (cases "(level, m)" rule: recurse.cases) simp_all
      then show ?thesis by simp
    next
      case True
      then obtain g name ks where sec: "m = Section (Some g) name ks"
        by (cases m) auto
      from loop_sections [OF m [unfolded sec NewSection_def]]
      have "set ks \<subseteq> set parent" by auto
      with "1.prems" have nk: "\<forall>k \<in> set ks. no_sections k" by auto
      have "concat (map unwrap (compileSection ks (level + 1))) = ks"
        using "1.IH" [OF refl \<open>\<not> 6 \<le> level\<close> m sec refl nk] .
      then show ?thesis using nk by (simp add: sec unwrap_all_no_sections)
    qed
    then have eq: "map (\<lambda>m. unwrap (recurse level m)) ?out = map unwrap ?out"
      by (intro map_cong) simp_all
    have "concat (map unwrap (map (recurse level) ?out)) =
        concat (map (\<lambda>m. unwrap (recurse level m)) ?out)"
      by (simp add: comp_def)
    also have "\<dots> = parent" by (simp only: eq out)
    finally show ?thesis using False by (simp only: compileSection_unfold if_False)
  qed
qed

subsection \<open>The segmenter: the claims\<close>

lemma compileSection_Nil: "compileSection [] level = []"
  by (simp add: compileSection_unfold NewSection_def emit_def)

lemma compileSection_single:
  "compileSection [Heading h] (Level h) =
     [Heading h, Section (Some h) (fst (snd (beginSection h))) []]"
proof -
  obtain nm where bs: "beginSection h = (Some h, nm, [])"
    by (simp add: beginSection_def)
  have "compileSection_loop (Level h) [Heading h] [] NewSection =
      [Heading h, Section (Some h) nm []]"
    by (simp add: bs NewSection_def emit_def)
  then show ?thesis
    by (simp add: compileSection_unfold bs compileSection_Nil NewSection_def emit_def)
qed

text \<open>The name the code gives a section is the name the specification words.\<close>

lemma beginSection_name: "fst (snd (beginSection h)) = spec_Name h"
  by (simp add: beginSection_def spec_Name_def bytes_attr_def
      split: option.splits attr_value.splits)

lemma no_sections_orphan_first:
  assumes "\<forall>k \<in> set ks. no_sections k"
  shows "orphan_first ks"
  unfolding orphan_first_def
proof
  fix c assume "c \<in> set (tl ks)"
  then have "c \<in> set ks" by (cases ks) auto
  with assms have "no_sections c" by simp
  then show "\<not> is_orphan c" by (cases c rule: is_orphan.cases) simp_all
qed

lemma no_sections_orphans_ok: "no_sections m \<Longrightarrow> orphans_ok m"
proof (cases m)
  case (Block kind cs)
  assume "no_sections m"
  with Block have "\<forall>k \<in> set cs. no_sections k" by simp
  from no_sections_orphan_first [OF this] Block show ?thesis by simp
qed (simp_all add: orphan_first_def)

text \<open>
  The scan of the code is the scan the specification words: the section under
  construction is emitted with the run up to the next heading of the level, and the rest
  of the list gives a heading and its section for every heading of the level.
\<close>

lemma sections_at_Cons:
  "sections_at level (x # xs) =
     (if is_level_heading level x
      then x # Section (Some (un_Heading x)) (spec_Name (un_Heading x)) (owned level xs) #
             sections_at level xs
      else sections_at level xs)"
  by (cases x) simp_all

lemma owned_Cons:
  "owned level (x # xs) = (if is_level_heading level x then [] else x # owned level xs)"
  by (simp add: owned_def)

lemma loop_spec:
  "compileSection_loop level xs [] (h0, name0, ks0) =
     emit (h0, name0, ks0 @ owned level xs) @ sections_at level xs"
proof (induction xs arbitrary: h0 name0 ks0)
  case Nil
  show ?case by (simp add: owned_def)
next
  case (Cons x xs)
  show ?case
  proof (cases "is_level_heading level x")
    case True
    then obtain h where x: "x = Heading h" by (cases x) auto
    have bs: "beginSection h = (Some h, spec_Name h, [])"
      using beginSection_name [of h] by (simp add: beginSection_def)
    have "compileSection_loop level xs [] (Some h, spec_Name h, []) =
        Section (Some h) (spec_Name h) (owned level xs) # sections_at level xs"
      by (simp add: Cons.IH emit_def)
    then show ?thesis
      using True x bs by (simp add: loop_Cons sections_at_Cons owned_Cons)
  next
    case False
    then show ?thesis
      by (simp add: loop_Cons sections_at_Cons owned_Cons AppendChild_def Cons.IH)
  qed
qed

lemma loop_is_spec_scan:
  "compileSection_loop level cs [] NewSection = spec_scan level cs"
  by (simp add: NewSection_def loop_spec spec_scan_def emit_def)

text \<open>The headings of the level are the same before and after, in the same order.\<close>

lemma filter_sections_at:
  "filter (is_level_heading level) (sections_at level xs) = filter (is_level_heading level) xs"
proof (induction xs)
  case Nil
  show ?case by simp
next
  case (Cons x xs)
  then show ?case by (cases x) simp_all
qed

lemma filter_spec_scan:
  "filter (is_level_heading level) (spec_scan level cs) = filter (is_level_heading level) cs"
  by (simp add: spec_scan_def filter_sections_at)

lemma is_level_heading_recurse: "is_level_heading level (recurse l n) = is_level_heading level n"
  by (cases "(l, n)" rule: recurse.cases) simp_all

lemma recurse_level_heading: "is_level_heading level n \<Longrightarrow> recurse l n = n"
  by (cases n) simp_all

lemma filter_recurse:
  "filter (is_level_heading level) (map (recurse l) ys) = filter (is_level_heading level) ys"
  by (induction ys) (simp_all add: is_level_heading_recurse recurse_level_heading)

lemma compileSection_level_headings:
  "filter (is_level_heading level) (compileSection cs level) = filter (is_level_heading level) cs"
  by (simp add: compileSection_unfold loop_is_spec_scan filter_recurse filter_spec_scan)

text \<open>
  The deeper levels change nothing of what the scan of a level has built: they only put
  sections into the content of its sections.
\<close>

lemma owned_subset: "set (owned level xs) \<subseteq> set xs"
  by (auto simp: owned_def dest: set_takeWhileD)

lemma sections_at_elems:
  "n \<in> set (sections_at level xs) \<Longrightarrow>
     (is_level_heading level n \<and> n \<in> set xs) \<or>
     (\<exists>h ks. n = Section (Some h) (spec_Name h) ks \<and> Level h = level \<and> set ks \<subseteq> set xs)"
proof (induction xs)
  case Nil
  then show ?case by simp
next
  case (Cons x xs)
  show ?case
  proof (cases "is_level_heading level x")
    case True
    then obtain h where x: "x = Heading h" and lv: "Level h = level" by (cases x) auto
    from Cons.prems True x have "n = x \<or> n = Section (Some h) (spec_Name h) (owned level xs) \<or>
        n \<in> set (sections_at level xs)"
      by (auto simp: sections_at_Cons)
    then show ?thesis
    proof (elim disjE)
      assume "n = x" with True show ?thesis by simp
    next
      assume "n = Section (Some h) (spec_Name h) (owned level xs)"
      then show ?thesis using lv owned_subset [of level xs] by auto
    next
      assume "n \<in> set (sections_at level xs)"
      from Cons.IH [OF this] show ?thesis by auto
    qed
  next
    case False
    with Cons.prems have "n \<in> set (sections_at level xs)" by (simp add: sections_at_Cons)
    from Cons.IH [OF this] show ?thesis by auto
  qed
qed

lemma own_content_recurse:
  assumes "\<forall>k \<in> set cs. no_sections k" "n \<in> set (spec_scan level cs)"
  shows "own_content (recurse level n) = n" "own_content n = n"
proof -
  from assms(2) have "(\<exists>ks. n = Section None [] ks \<and> set ks \<subseteq> set cs) \<or>
      n \<in> set (sections_at level cs)"
    using owned_subset [of level cs] by (auto simp: spec_scan_def split: if_splits)
  then have cases: "(\<exists>h name ks. n = Section h name ks \<and> set ks \<subseteq> set cs) \<or> is_level_heading level n"
    using sections_at_elems [of n level cs] by blast
  show "own_content (recurse level n) = n"
  proof (cases "is_level_heading level n")
    case True
    then show ?thesis by (cases n) simp_all
  next
    case False
    with cases obtain h name ks where n: "n = Section h name ks" and ks: "set ks \<subseteq> set cs"
      by blast
    with assms(1) have nk: "\<forall>k \<in> set ks. no_sections k" by auto
    show ?thesis
    proof (cases h)
      case None
      with n nk show ?thesis by (simp add: unwrap_all_no_sections)
    next
      case (Some g)
      with n nk show ?thesis by (simp add: compileSection_unwrap)
    qed
  qed
  show "own_content n = n"
  proof (cases "is_level_heading level n")
    case True
    then show ?thesis by (cases n) simp_all
  next
    case False
    with cases obtain h name ks where n: "n = Section h name ks" and ks: "set ks \<subseteq> set cs"
      by blast
    with assms(1) have "\<forall>k \<in> set ks. no_sections k" by auto
    with n show ?thesis by (simp add: unwrap_all_no_sections)
  qed
qed

lemma compileSection_own_content:
  assumes "\<forall>k \<in> set cs. no_sections k"
  shows "map own_content (compileSection cs level) = spec_scan level cs"
proof (cases "6 \<le> level")
  case True
  have "map own_content (spec_scan level cs) = spec_scan level cs"
    using own_content_recurse(2) [OF assms] by (simp add: map_idI)
  with True show ?thesis by (simp add: compileSection_unfold loop_is_spec_scan)
next
  case False
  have "map (\<lambda>n. own_content (recurse level n)) (spec_scan level cs) = spec_scan level cs"
    using own_content_recurse(1) [OF assms] by (simp add: map_idI)
  with False show ?thesis by (simp add: compileSection_unfold loop_is_spec_scan comp_def)
qed

text \<open>
  Claim C3, as amended. After the segmenter has run over a parent's child list at level
  \<open>L\<close>, that flat child list is replaced by the headings of level \<open>L\<close>, each left in its
  place as a sibling, and the emitted sections: the content that a heading of level \<open>L\<close>
  owns collapses into a single section placed right after the heading (the heading is
  carried by the section, and remains a separate sibling in the parent's child list),
  and the content before the first such heading into one orphan section placed first.
  The structure is built in one top-down pass and never revisited: the list of a level
  is the scan of the input at that level, the children of a section with a heading are
  the one segmentation at the next level of the content it owns (below level 6), and
  what the scan of a level has built is what the final tree holds at that level, the
  deeper levels having only put sections into the content of its sections.

  The first conjunct is the equation of the whole result; the second says that the
  headings of the level are those of the input, in order; the third that every heading
  is followed at once by its section; the last, for an input that holds no section,
  that taking the sections away gives the input back and that every node of the list
  is as the scan built it.
\<close>

theorem compileSection_keeps_headings:
  "compileSection cs level =
     (if 6 \<le> level then spec_scan level cs else map (recurse level) (spec_scan level cs)) \<and>
   filter (is_level_heading level) (compileSection cs level) =
     filter (is_level_heading level) cs \<and>
   (paired level (compileSection cs level) \<or>
    (\<exists>ks rest. compileSection cs level = Section None [] ks # rest \<and> paired level rest)) \<and>
   ((\<forall>k \<in> set cs. no_sections k) \<longrightarrow>
      concat (map unwrap (compileSection cs level)) = cs \<and>
      map own_content (compileSection cs level) = spec_scan level cs)"
proof (intro conjI impI)
  show "compileSection cs level =
     (if 6 \<le> level then spec_scan level cs else map (recurse level) (spec_scan level cs))"
    by (simp add: compileSection_unfold loop_is_spec_scan)
next
  show "filter (is_level_heading level) (compileSection cs level) =
     filter (is_level_heading level) cs"
    by (rule compileSection_level_headings)
next
  show "paired level (compileSection cs level) \<or>
    (\<exists>ks rest. compileSection cs level = Section None [] ks # rest \<and> paired level rest)"
    by (rule compileSection_shape)
next
  assume "\<forall>k \<in> set cs. no_sections k"
  then show "concat (map unwrap (compileSection cs level)) = cs"
    by (rule compileSection_unwrap)
next
  assume "\<forall>k \<in> set cs. no_sections k"
  then show "map own_content (compileSection cs level) = spec_scan level cs"
    by (rule compileSection_own_content)
qed

text \<open>
  Claim C3 as the specification words it fails: the child list is not replaced by
  sections alone. For a document of a heading ``A'' of level 1 and a paragraph, the
  heading is still the first child of the document, a sibling of its section.
\<close>

theorem compileSection_heading_sibling_counterexample:
  "compileSection
     [Heading \<lparr>Level = 1, Attributes = [], Text = ''A''\<rparr>, Block ''Paragraph'' []] 1 =
     [Heading \<lparr>Level = 1, Attributes = [], Text = ''A''\<rparr>,
      Section (Some \<lparr>Level = 1, Attributes = [], Text = ''A''\<rparr>) ''A''
        [Section None [] [Block ''Paragraph'' []]]] \<and>
   \<not> list_all is_Section (compileSection
     [Heading \<lparr>Level = 1, Attributes = [], Text = ''A''\<rparr>, Block ''Paragraph'' []] 1)"
  by (simp add: compileSection_unfold NewSection_def emit_def beginSection_def
      AttributeString_def AppendChild_def)

theorem compileSection_keeps_headings_witness:
  "list_all no_sections
     [Block ''Paragraph'' [], Heading \<lparr>Level = 1, Attributes = [], Text = ''A''\<rparr>,
      Block ''List'' [], Heading \<lparr>Level = 1, Attributes = [], Text = ''B''\<rparr>] \<and>
   compileSection
     [Block ''Paragraph'' [], Heading \<lparr>Level = 1, Attributes = [], Text = ''A''\<rparr>,
      Block ''List'' [], Heading \<lparr>Level = 1, Attributes = [], Text = ''B''\<rparr>] 1 =
     [Section None [] [Block ''Paragraph'' []],
      Heading \<lparr>Level = 1, Attributes = [], Text = ''A''\<rparr>,
      Section (Some \<lparr>Level = 1, Attributes = [], Text = ''A''\<rparr>) ''A''
        [Section None [] [Block ''List'' []]],
      Heading \<lparr>Level = 1, Attributes = [], Text = ''B''\<rparr>,
      Section (Some \<lparr>Level = 1, Attributes = [], Text = ''B''\<rparr>) ''B'' []] \<and>
   filter (is_level_heading 1) (compileSection
     [Block ''Paragraph'' [], Heading \<lparr>Level = 1, Attributes = [], Text = ''A''\<rparr>,
      Block ''List'' [], Heading \<lparr>Level = 1, Attributes = [], Text = ''B''\<rparr>] 1) =
     [Heading \<lparr>Level = 1, Attributes = [], Text = ''A''\<rparr>,
      Heading \<lparr>Level = 1, Attributes = [], Text = ''B''\<rparr>] \<and>
   concat (map unwrap (compileSection
     [Block ''Paragraph'' [], Heading \<lparr>Level = 1, Attributes = [], Text = ''A''\<rparr>,
      Block ''List'' [], Heading \<lparr>Level = 1, Attributes = [], Text = ''B''\<rparr>] 1)) =
     [Block ''Paragraph'' [], Heading \<lparr>Level = 1, Attributes = [], Text = ''A''\<rparr>,
      Block ''List'' [], Heading \<lparr>Level = 1, Attributes = [], Text = ''B''\<rparr>] \<and>
   map own_content (compileSection
     [Block ''Paragraph'' [], Heading \<lparr>Level = 1, Attributes = [], Text = ''A''\<rparr>,
      Block ''List'' [], Heading \<lparr>Level = 1, Attributes = [], Text = ''B''\<rparr>] 1) =
     [Section None [] [Block ''Paragraph'' []],
      Heading \<lparr>Level = 1, Attributes = [], Text = ''A''\<rparr>,
      Section (Some \<lparr>Level = 1, Attributes = [], Text = ''A''\<rparr>) ''A'' [Block ''List'' []],
      Heading \<lparr>Level = 1, Attributes = [], Text = ''B''\<rparr>,
      Section (Some \<lparr>Level = 1, Attributes = [], Text = ''B''\<rparr>) ''B'' []]"
  using compileSection_keeps_headings [where level = 1 and cs =
     "[Block ''Paragraph'' [], Heading \<lparr>Level = 1, Attributes = [], Text = ''A''\<rparr>,
      Block ''List'' [], Heading \<lparr>Level = 1, Attributes = [], Text = ''B''\<rparr>]"]
  by (simp add: spec_scan_def owned_def spec_Name_def bytes_attr_def AttributeString_def
      compileSection_unfold NewSection_def emit_def AppendChild_def beginSection_def)

text \<open>
  Claim C5. Every section with a heading that the segmenter emits, at any depth, bears
  the name the specification words: the heading's identifier under \<open>section\<close>, else its
  identifier under \<open>id\<close>, else its text. A heading with both identifiers gives its section
  the one under \<open>section\<close>; a heading with no attribute gives it its text. (An attribute
  whose value is not a byte string is no identifier.)
\<close>

theorem compileSection_names:
  "((\<forall>k \<in> set cs. no_sections k) \<longrightarrow>
      (\<forall>n \<in> set (compileSection cs level). all_nodes name_resolved n)) \<and>
   (AttributeString h ''section'' = Some (Bytes s) \<and> AttributeString h ''id'' = Some (Bytes i) \<longrightarrow>
      compileSection [Heading h] (Level h) = [Heading h, Section (Some h) s []]) \<and>
   (Attributes h = [] \<longrightarrow>
      compileSection [Heading h] (Level h) = [Heading h, Section (Some h) (Text h) []])"
proof (intro conjI impI ballI)
  fix n
  assume "\<forall>k \<in> set cs. no_sections k" and "n \<in> set (compileSection cs level)"
  then show "all_nodes name_resolved n"
  proof (rule compileSection_all_nodes [rotated 4])
    fix m show "no_sections m \<Longrightarrow> name_resolved m" by (cases m) simp_all
  qed (simp_all add: beginSection_name)
next
  assume "AttributeString h ''section'' = Some (Bytes s) \<and>
    AttributeString h ''id'' = Some (Bytes i)"
  then have "fst (snd (beginSection h)) = s" by (simp add: beginSection_def)
  then show "compileSection [Heading h] (Level h) = [Heading h, Section (Some h) s []]"
    by (simp add: compileSection_single)
next
  assume "Attributes h = []"
  then have "fst (snd (beginSection h)) = Text h"
    by (simp add: beginSection_def AttributeString_def)
  then show "compileSection [Heading h] (Level h) = [Heading h, Section (Some h) (Text h) []]"
    by (simp add: compileSection_single)
qed

theorem compileSection_names_witness:
  "list_all no_sections
     [Heading \<lparr>Level = 1, Attributes = [(''id'', Bytes ''a''), (''section'', Bytes ''intro'')],
        Text = ''Introduction''\<rparr>, Block ''Paragraph'' []] \<and>
   list_all (all_nodes name_resolved) (compileSection
     [Heading \<lparr>Level = 1, Attributes = [(''id'', Bytes ''a''), (''section'', Bytes ''intro'')],
        Text = ''Introduction''\<rparr>, Block ''Paragraph'' []] 1) \<and>
   compileSection
     [Heading \<lparr>Level = 1, Attributes = [(''id'', Bytes ''a''), (''section'', Bytes ''intro'')],
        Text = ''Introduction''\<rparr>] 1 =
     [Heading \<lparr>Level = 1, Attributes = [(''id'', Bytes ''a''), (''section'', Bytes ''intro'')],
        Text = ''Introduction''\<rparr>,
      Section (Some \<lparr>Level = 1, Attributes = [(''id'', Bytes ''a''), (''section'', Bytes ''intro'')],
        Text = ''Introduction''\<rparr>) ''intro'' []] \<and>
   compileSection [Heading \<lparr>Level = 2, Attributes = [], Text = ''Plain''\<rparr>] 2 =
     [Heading \<lparr>Level = 2, Attributes = [], Text = ''Plain''\<rparr>,
      Section (Some \<lparr>Level = 2, Attributes = [], Text = ''Plain''\<rparr>) ''Plain'' []]"
  using
    compileSection_names [of
      "[Heading \<lparr>Level = 1, Attributes = [(''id'', Bytes ''a''), (''section'', Bytes ''intro'')],
         Text = ''Introduction''\<rparr>, Block ''Paragraph'' []]" 1
      "\<lparr>Level = 1, Attributes = [(''id'', Bytes ''a''), (''section'', Bytes ''intro'')],
         Text = ''Introduction''\<rparr>" "''intro''" "''a''"]
    compileSection_names [of "[]" 2 "\<lparr>Level = 2, Attributes = [], Text = ''Plain''\<rparr>"]
  by (simp add: AttributeString_def list_all_iff)

text \<open>
  Claim C6. In the tree the segmenter produces from a tree without sections, every
  parent has at most one orphan section (a section with no heading and the empty name)
  among its children, and that one is its first child: no child after the first is an
  orphan, in the list of the document and in the children of every node below. And
  every section with no heading is an orphan: its name is empty.
\<close>

theorem compileSection_orphans:
  assumes "\<forall>k \<in> set cs. no_sections k"
  shows "orphan_first (compileSection cs level) \<and>
    (\<forall>n \<in> set (compileSection cs level). all_nodes orphans_ok n)"
proof (intro conjI ballI)
  show "orphan_first (compileSection cs level)"
    by (rule compileSection_orphan_first)
next
  fix n assume "n \<in> set (compileSection cs level)"
  with assms show "all_nodes orphans_ok n"
  proof (rule compileSection_all_nodes [rotated 4])
    fix m show "no_sections m \<Longrightarrow> orphans_ok m" by (rule no_sections_orphans_ok)
  qed (simp_all add: no_sections_orphan_first compileSection_orphan_first)
qed

theorem compileSection_orphans_witness:
  "list_all no_sections
     [Block ''Paragraph'' [], Heading \<lparr>Level = 1, Attributes = [], Text = ''A''\<rparr>,
      Block ''List'' []] \<and>
   orphan_first (compileSection
     [Block ''Paragraph'' [], Heading \<lparr>Level = 1, Attributes = [], Text = ''A''\<rparr>,
      Block ''List'' []] 1) \<and>
   list_all (all_nodes orphans_ok) (compileSection
     [Block ''Paragraph'' [], Heading \<lparr>Level = 1, Attributes = [], Text = ''A''\<rparr>,
      Block ''List'' []] 1) \<and>
   is_orphan (compileSection
     [Block ''Paragraph'' [], Heading \<lparr>Level = 1, Attributes = [], Text = ''A''\<rparr>,
      Block ''List'' []] 1 ! 0)"
  using compileSection_orphans [of
     "[Block ''Paragraph'' [], Heading \<lparr>Level = 1, Attributes = [], Text = ''A''\<rparr>,
       Block ''List'' []]" 1]
  by (simp add: list_all_iff compileSection_unfold NewSection_def emit_def beginSection_def
      AttributeString_def AppendChild_def)

text \<open>
  Claim C7. At a level below 6 the segmenter runs again, at the next level, over the
  children of every section with a heading that it has emitted, and over nothing else;
  at level 6 or more it does not run again. So in the tree it produces from a tree
  without sections, every section whose heading is of a level below 6 holds the
  segmentation at the next level of the content it owns, and every section whose
  heading is of level 6 or more holds its content flat: no section lies in it, and a
  heading in it is left as it was.
\<close>

theorem compileSection_recursion:
  "(6 \<le> level \<longrightarrow> compileSection cs level = compileSection_loop level cs [] NewSection) \<and>
   (level < 6 \<longrightarrow>
      compileSection cs level = map (recurse level) (compileSection_loop level cs [] NewSection)) \<and>
   ((\<forall>k \<in> set cs. no_sections k) \<longrightarrow>
      (\<forall>n \<in> set (compileSection cs level). all_nodes subdivided n))"
proof (intro conjI impI ballI)
  assume "6 \<le> level"
  then show "compileSection cs level = compileSection_loop level cs [] NewSection"
    by (simp add: compileSection_unfold)
next
  assume "level < 6"
  then show "compileSection cs level =
      map (recurse level) (compileSection_loop level cs [] NewSection)"
    by (simp add: compileSection_unfold)
next
  fix n
  assume "\<forall>k \<in> set cs. no_sections k" and "n \<in> set (compileSection cs level)"
  then show "all_nodes subdivided n"
  proof (rule compileSection_all_nodes [rotated 4])
    fix m show "no_sections m \<Longrightarrow> subdivided m" by (cases m) simp_all
  next
    fix h :: heading and ks
    assume "\<forall>k \<in> set ks. no_sections k" and "Level h < 6"
    then show "subdivided (Section (Some h) (fst (snd (beginSection h)))
        (compileSection ks (Level h + 1)))"
      by (simp add: compileSection_unwrap)
  qed simp_all
qed

theorem compileSection_recursion_witness:
  "compileSection
     [Heading \<lparr>Level = 6, Attributes = [], Text = ''F''\<rparr>,
      Heading \<lparr>Level = 7, Attributes = [], Text = ''G''\<rparr>, Block ''Paragraph'' []] 6 =
     [Heading \<lparr>Level = 6, Attributes = [], Text = ''F''\<rparr>,
      Section (Some \<lparr>Level = 6, Attributes = [], Text = ''F''\<rparr>) ''F''
        [Heading \<lparr>Level = 7, Attributes = [], Text = ''G''\<rparr>, Block ''Paragraph'' []]] \<and>
   compileSection
     [Heading \<lparr>Level = 5, Attributes = [], Text = ''E''\<rparr>,
      Heading \<lparr>Level = 6, Attributes = [], Text = ''F''\<rparr>] 5 =
     [Heading \<lparr>Level = 5, Attributes = [], Text = ''E''\<rparr>,
      Section (Some \<lparr>Level = 5, Attributes = [], Text = ''E''\<rparr>) ''E''
        [Heading \<lparr>Level = 6, Attributes = [], Text = ''F''\<rparr>,
         Section (Some \<lparr>Level = 6, Attributes = [], Text = ''F''\<rparr>) ''F'' []]] \<and>
   list_all no_sections
     [Heading \<lparr>Level = 6, Attributes = [], Text = ''F''\<rparr>,
      Heading \<lparr>Level = 7, Attributes = [], Text = ''G''\<rparr>, Block ''Paragraph'' []] \<and>
   list_all (all_nodes subdivided) (compileSection
     [Heading \<lparr>Level = 6, Attributes = [], Text = ''F''\<rparr>,
      Heading \<lparr>Level = 7, Attributes = [], Text = ''G''\<rparr>, Block ''Paragraph'' []] 6)"
  using
    compileSection_recursion [of 6
      "[Heading \<lparr>Level = 6, Attributes = [], Text = ''F''\<rparr>,
        Heading \<lparr>Level = 7, Attributes = [], Text = ''G''\<rparr>, Block ''Paragraph'' []]"]
    compileSection_recursion [of 5
      "[Heading \<lparr>Level = 5, Attributes = [], Text = ''E''\<rparr>,
        Heading \<lparr>Level = 6, Attributes = [], Text = ''F''\<rparr>]"]
  by (simp add: list_all_iff compileSection_unfold NewSection_def emit_def beginSection_def
      AttributeString_def AppendChild_def)

subsection \<open>Named children of a section node\<close>

lemma walk_children_first:
  "walk_children (\<lambda>child found. if Name child = name then (True, Some child) else (False, found))
     cs st =
   (case filter (section_named name) cs of [] \<Rightarrow> st | s # rest \<Rightarrow> Some s)"
proof (induction cs arbitrary: st)
  case Nil
  show ?case by simp
next
  case (Cons c cs)
  then show ?case by (cases c) simp_all
qed

lemma walk_children_last:
  "walk_children (\<lambda>child sections. (False, sections(Name child \<mapsto> f child))) cs m name =
   (if filter (section_named name) cs = [] then m name
    else Some (f (last (filter (section_named name) cs))))"
proof (induction cs arbitrary: m)
  case Nil
  show ?case by simp
next
  case (Cons c cs)
  then show ?case by (cases c) simp_all
qed

lemma derive_inject: "derive n s = derive n s' \<longleftrightarrow> s = s'"
proof
  assume "derive n s = derive n s'"
  then have "section_node (derive n s) = section_node (derive n s')" by simp
  then show "s = s'" by (simp add: derive_def)
qed simp

text \<open>
  Claim C10. When direct child sections of a node bear the name asked for, two or more
  of them or one, \<open>UnorderedChild\<close> returns the view of the first of them in document
  order, and the map of \<open>UnorderedChildren\<close> holds under that name the view of the
  last. So the two differ whenever the first and the last are different sections, as
  they are in the tree of the witness.
\<close>

theorem Node_UnorderedChild_first_UnorderedChildren_last:
  assumes "named_sections n name \<noteq> []"
  shows "Node_UnorderedChild n name = Some (derive n (hd (named_sections n name))) \<and>
    Node_UnorderedChildren n name = Some (derive n (last (named_sections n name))) \<and>
    (hd (named_sections n name) \<noteq> last (named_sections n name) \<longrightarrow>
       Node_UnorderedChildren n name \<noteq> Node_UnorderedChild n name)"
proof -
  from assms obtain s rest where ns: "named_sections n name = s # rest"
    by (cases "named_sections n name") auto
  then have first: "Node_UnorderedChild n name = Some (derive n (hd (named_sections n name)))"
    by (simp add: Node_UnorderedChild_def WalkChildSections_def walk_children_first
        named_sections_def)
  have last: "Node_UnorderedChildren n name = Some (derive n (last (named_sections n name)))"
    using assms
    by (simp add: Node_UnorderedChildren_def WalkChildSections_def walk_children_last
        named_sections_def)
  show ?thesis
    unfolding first last by (simp add: derive_inject)
qed

theorem Node_UnorderedChild_first_UnorderedChildren_last_witness:
  "named_sections
     \<lparr>root = None,
      section_node = Block ''Document''
        [Section None [] [Block ''Paragraph'' []],
         Section None [] [Block ''List'' []]],
      source = [], renderer = None\<rparr> [] \<noteq> [] \<and>
   Node_UnorderedChild
     \<lparr>root = None,
      section_node = Block ''Document''
        [Section None [] [Block ''Paragraph'' []],
         Section None [] [Block ''List'' []]],
      source = [], renderer = None\<rparr> [] =
     Some \<lparr>root = None, section_node = Section None [] [Block ''Paragraph'' []],
       source = [], renderer = None\<rparr> \<and>
   Node_UnorderedChildren
     \<lparr>root = None,
      section_node = Block ''Document''
        [Section None [] [Block ''Paragraph'' []],
         Section None [] [Block ''List'' []]],
      source = [], renderer = None\<rparr> [] =
     Some \<lparr>root = None, section_node = Section None [] [Block ''List'' []],
       source = [], renderer = None\<rparr> \<and>
   Node_UnorderedChildren
     \<lparr>root = None,
      section_node = Block ''Document''
        [Section None [] [Block ''Paragraph'' []],
         Section None [] [Block ''List'' []]],
      source = [], renderer = None\<rparr> [] \<noteq>
   Node_UnorderedChild
     \<lparr>root = None,
      section_node = Block ''Document''
        [Section None [] [Block ''Paragraph'' []],
         Section None [] [Block ''List'' []]],
      source = [], renderer = None\<rparr> []"
  using Node_UnorderedChild_first_UnorderedChildren_last [of
     "\<lparr>root = None,
       section_node = Block ''Document''
         [Section None [] [Block ''Paragraph'' []],
          Section None [] [Block ''List'' []]],
       source = [], renderer = None\<rparr>" "[]"]
  by (simp add: named_sections_def derive_def)

subsection \<open>The streamed fragment\<close>

lemma foldl_Write_open:
  "werr w = None \<Longrightarrow> foldl Write w chunks = w\<lparr>wrote := wrote w @ chunks\<rparr>"
  by (induction chunks arbitrary: w) (simp_all add: Write_def)

lemma Render_Pipe:
  "r src n = (chunks, err) \<Longrightarrow> Render r Pipe src n = (\<lparr>wrote = chunks, werr = None\<rparr>, err)"
  by (simp add: Render_def Pipe_def foldl_Write_open)

text \<open>
  Claim C8. \<open>FragmentReader\<close> returns the error ``no renderer'' when the node has no
  renderer. Otherwise it returns a reader, and the consumer that reads it to the end is
  given the bytes the renderer wrote and then, as the error of its last read, the error
  the renderer returned: \<open>EOF\<close> only when the renderer returned nil. A rendering that
  fails is not taken for one that ended well.
\<close>

theorem FragmentReader_delivers_error:
  "(renderer n = None \<longrightarrow> FragmentReader n = Inl ErrNoRenderer) \<and>
   (renderer n = Some r \<and> r (source n) (section_node n) = (chunks, err) \<longrightarrow>
      (\<exists>p. FragmentReader n = Inr (Inr p) \<and>
           Read_to_end p = (concat chunks, Some (case err of None \<Rightarrow> EOF | Some e \<Rightarrow> e))))"
proof (intro conjI impI)
  assume "renderer n = None"
  then show "FragmentReader n = Inl ErrNoRenderer" by (simp add: FragmentReader_def)
next
  assume H: "renderer n = Some r \<and> r (source n) (section_node n) = (chunks, err)"
  then have R: "Render r Pipe (source n) (section_node n) = (\<lparr>wrote = chunks, werr = None\<rparr>, err)"
    by (simp add: Render_Pipe)
  show "\<exists>p. FragmentReader n = Inr (Inr p) \<and>
      Read_to_end p = (concat chunks, Some (case err of None \<Rightarrow> EOF | Some e \<Rightarrow> e))"
  proof (cases err)
    case None
    with H R show ?thesis
      by (simp add: FragmentReader_def render_def Close_def CloseWithError_def Read_to_end_def)
  next
    case (Some e)
    with H R show ?thesis
      by (simp add: FragmentReader_def render_def Close_def CloseWithError_def Read_to_end_def)
  qed
qed

theorem FragmentReader_delivers_error_witness:
  "FragmentReader \<lparr>root = None, section_node = Block ''Document'' [], source = ''# A'',
      renderer = None\<rparr> = Inl ErrNoRenderer \<and>
   (\<exists>p. FragmentReader \<lparr>root = None, section_node = Block ''Document'' [], source = ''# A'',
        renderer = Some (\<lambda>src n. ([''<h1>''], Some (RenderError ''failed'')))\<rparr> = Inr (Inr p) \<and>
      Read_to_end p = (''<h1>'', Some (RenderError ''failed'')))"
  using
    FragmentReader_delivers_error [of
      "\<lparr>root = None, section_node = Block ''Document'' [], source = ''# A'', renderer = None\<rparr>"]
    FragmentReader_delivers_error [of
      "\<lparr>root = None, section_node = Block ''Document'' [], source = ''# A'',
        renderer = Some (\<lambda>src n. ([''<h1>''], Some (RenderError ''failed'')))\<rparr>"
      "\<lambda>src n. ([''<h1>''], Some (RenderError ''failed''))" "[''<h1>'']"
      "Some (RenderError ''failed'')"]
  by simp

end
